theory Spec2Isabelle
  imports Main "HOL-Library.Word"
begin

unbundle bit_operations_syntax

section \<open>Frame demarshaller (the inner loop of \<open>forward\<close>)\<close>

type_synonym byte = "8 word"

definition cassHdrLen :: nat where
  "cassHdrLen = 9"

definition cassMaxLen :: nat where
  "cassMaxLen = 268435456"

text \<open>
  \<open>binary.BigEndian.Uint32\<close> on a slice of (at least) four bytes.
\<close>

definition Uint32 :: "byte list \<Rightarrow> 32 word" where
  "Uint32 b = ucast (b ! 3) OR push_bit 8 (ucast (b ! 2)) OR push_bit 16 (ucast (b ! 1))
               OR push_bit 24 (ucast (b ! 0))"

record Metrics =
  PacketCount :: int
  Reads :: int
  Writes :: int
  WriteFails :: int
  ReadFails :: int

definition incrementPackets :: "Metrics \<Rightarrow> Metrics" where
  "incrementPackets m = m\<lparr>PacketCount := PacketCount m + 1\<rparr>"

definition incrementReads :: "Metrics \<Rightarrow> Metrics" where
  "incrementReads m = m\<lparr>Reads := Reads m + 1\<rparr>"

definition incrementWrites :: "Metrics \<Rightarrow> Metrics" where
  "incrementWrites m = m\<lparr>Writes := Writes m + 1\<rparr>"

definition incrementWriteFails :: "Metrics \<Rightarrow> Metrics" where
  "incrementWriteFails m = m\<lparr>WriteFails := WriteFails m + 1\<rparr>"

definition incrementReadFails :: "Metrics \<Rightarrow> Metrics" where
  "incrementReadFails m = m\<lparr>ReadFails := ReadFails m + 1\<rparr>"

text \<open>
  One goroutine running \<open>forward(src, dst)\<close>. The two sockets are part of the state:
  \<open>pending\<close> is the byte stream the source socket will still deliver, \<open>dstResults\<close> the
  results of the coming calls of \<open>dst.Write\<close> (\<open>False\<close> is an error; once the list is
  used up every write succeeds), \<open>dstWritten\<close> the frames written to \<open>dst\<close> so far and
  \<open>mirrored\<close> the frames handed to \<open>mirrorData\<close>. \<open>data\<close> is the reassembly buffer of
  the source and \<open>returned\<close> says that the goroutine has left \<open>forward\<close>.
  A write is taken to be all or nothing. \<open>int\<close> has 64 bits, so
  \<open>cassHdrLen + int(bodyLength)\<close> does not overflow.
\<close>

record forwarder =
  pending :: "byte list"
  data :: "byte list"
  dstResults :: "bool list"
  dstWritten :: "byte list list"
  mirrored :: "byte list list"
  metrics :: Metrics
  returned :: bool

text \<open>
  The loop \<open>for true { ... }\<close> that peels frames off \<open>data\<close>. \<open>toSource\<close> is the test
  \<open>dst.RemoteAddr().String() == p.sourceHostString\<close>. A failed write is followed by
  \<open>continue\<close>: the same frame is tried again.
\<close>

function forward_frames :: "bool \<Rightarrow> forwarder \<Rightarrow> forwarder" where
  "forward_frames toSource s =
     (if length (data s) < cassHdrLen then s
      else
        let bodyLength = Uint32 (take 4 (drop 5 (data s)));
            fullLength = cassHdrLen + unat bodyLength
        in if length (data s) < fullLength \<or> length (data s) > cassMaxLen then s
           else
             let query = take fullLength (data s)
             in (case dstResults s of
                   False # rs \<Rightarrow> forward_frames toSource (s\<lparr>dstResults := rs\<rparr>)
                 | _ \<Rightarrow>
                     forward_frames toSource
                       (s\<lparr>dstResults := tl (dstResults s),
                          dstWritten := dstWritten s @ [query],
                          mirrored := (if toSource then mirrored s @ [query] else mirrored s),
                          metrics := incrementPackets (metrics s),
                          data := drop fullLength (data s)\<rparr>)))"
  by pat_completeness auto
termination
  by (relation "measure (\<lambda>(t, s). length (dstResults s) + length (data s))")
     (auto simp: cassHdrLen_def split: list.splits bool.splits)

declare forward_frames.simps [simp del]

text \<open>
  The results of \<open>src.Read(buf)\<close> with \<open>buf\<close> of \<open>0xffff\<close> bytes: \<open>Rd n\<close> delivers the next
  \<open>n\<close> bytes of the stream (at most \<open>0xffff\<close>, and at most what is left), \<open>RdErr\<close> is any
  error, \<open>io.EOF\<close> included, after which \<open>forward\<close> returns.
\<close>

datatype read_result = Rd nat | RdErr

definition forward_read :: "bool \<Rightarrow> read_result \<Rightarrow> forwarder \<Rightarrow> forwarder" where
  "forward_read toSource r s =
     (if returned s then s
      else case r of
        RdErr \<Rightarrow> s\<lparr>returned := True\<rparr>
      | Rd n \<Rightarrow>
          let bytesRead = min n (min 65535 (length (pending s)))
          in forward_frames toSource
               (s\<lparr>data := data s @ take bytesRead (pending s),
                  pending := drop bytesRead (pending s)\<rparr>))"

fun forward :: "bool \<Rightarrow> read_result list \<Rightarrow> forwarder \<Rightarrow> forwarder" where
  "forward toSource [] s = s"
| "forward toSource (r # rs) s = forward toSource rs (forward_read toSource r s)"

definition forward_init :: "byte list \<Rightarrow> bool list \<Rightarrow> forwarder" where
  "forward_init stream results =
     \<lparr>pending = stream, data = [], dstResults = results, dstWritten = [], mirrored = [],
      metrics = \<lparr>PacketCount = 0, Reads = 0, Writes = 0, WriteFails = 0, ReadFails = 0\<rparr>,
      returned = False\<rparr>"

section \<open>Table references\<close>

text \<open>
  \<open>strings.IndexRune\<close> for an ASCII rune: the index of its first occurrence, or \<open>-1\<close>.
  Strings are byte lists, as Go's are.
\<close>

fun IndexRune :: "string \<Rightarrow> char \<Rightarrow> int" where
  "IndexRune [] c = - 1"
| "IndexRune (x # xs) c =
     (if x = c then 0
      else (let i = IndexRune xs c in if i = - 1 then - 1 else i + 1))"

definition extractTableInfo :: "string \<Rightarrow> string \<times> string" where
  "extractTableInfo fromClause =
     (let keyspace =
            (let i = IndexRune fromClause (CHR ''.'')
             in if i \<noteq> - 1 then take (nat i) fromClause else []);
          tableName = fromClause;
          tableName =
            (let i = IndexRune tableName (CHR '';'')
             in if i \<noteq> - 1 then take (nat i) tableName else tableName);
          tableName =
            (let i = IndexRune tableName (CHR ''.'')
             in if i \<noteq> - 1 then drop (nat (i + 1)) tableName else tableName);
          tableName =
            (let i = IndexRune tableName (CHR ''('')
             in if i \<noteq> - 1 then take (nat i) tableName else tableName)
      in (keyspace, tableName))"

text \<open>\<open>strings.Split(s, "/")\<close> for a one-byte separator: never the empty list.\<close>

fun Split :: "string \<Rightarrow> char \<Rightarrow> string list" where
  "Split [] c = [[]]"
| "Split (x # xs) c =
     (if x = c then [] # Split xs c
      else (case Split xs c of [] \<Rightarrow> [[x]] | y # ys \<Rightarrow> (x # y) # ys))"

definition HasPrefix :: "string \<Rightarrow> string \<Rightarrow> bool" where
  "HasPrefix s prefix \<longleftrightarrow> length prefix \<le> length s \<and> take (length prefix) s = prefix"

definition HasSuffix :: "string \<Rightarrow> string \<Rightarrow> bool" where
  "HasSuffix s suffix \<longleftrightarrow> length suffix \<le> length s \<and> drop (length s - length suffix) s = suffix"

text \<open>
  \<open>strings.ToLower\<close> on ASCII: the letters \<open>A\<close> to \<open>Z\<close> (bytes 65 to 90) are
  mapped to \<open>a\<close> to \<open>z\<close>. Go adds \<open>'a' - 'A' = 32\<close> to the byte, which for these
  bytes sets the bit of value 32. Bytes from \<open>0x80\<close> on (UTF-8 sequences, which Go maps
  rune by rune) are left as they are.
\<close>

definition lowerByte :: "char \<Rightarrow> char" where
  "lowerByte c =
     (if 65 \<le> (of_char c :: nat) \<and> (of_char c :: nat) \<le> 90
      then (case c of Char b0 b1 b2 b3 b4 b5 b6 b7 \<Rightarrow> Char b0 b1 b2 b3 b4 True b6 b7)
      else c)"

definition ToLower :: "string \<Rightarrow> string" where
  "ToLower s = map lowerByte s"

section \<open>Migration status, queries and the proxy\<close>

text \<open>
  Modelled from the spec: the type \<open>migration.Step\<close> and its constant
  \<open>migration.LoadingDataComplete\<close> are declared in a file of package \<open>migration\<close> that
  is not among the sources. The spec calls it an ordered enumeration of which the proxy only ever
  compares with \<open>LoadingDataComplete\<close>; every other step is \<open>OtherStep n\<close>.
\<close>

datatype Step = LoadingDataComplete | OtherStep nat

text \<open>
  \<open>migration.Table\<close> and \<open>migration.Status\<close>, with the fields the proxy reads. Their
  mutexes are only taken and released around single reads and writes.
\<close>

record Table =
  tblKeyspace :: string
  tblName :: string
  tblStep :: Step

text \<open>
  A Go \<open>map[string]map[string]T\<close>. Reading through a missing outer key gives the zero
  value; assigning through it panics (the inner map is nil).
\<close>

type_synonym 'a nmap = "string \<Rightarrow> (string \<Rightarrow> 'a option) option"

definition nget :: "'a nmap \<Rightarrow> string \<Rightarrow> string \<Rightarrow> 'a option" where
  "nget m k1 k2 = (case m k1 of None \<Rightarrow> None | Some inner \<Rightarrow> inner k2)"

definition nput :: "'a nmap \<Rightarrow> string \<Rightarrow> string \<Rightarrow> 'a \<Rightarrow> 'a nmap" where
  "nput m k1 k2 v = (case m k1 of None \<Rightarrow> m | Some inner \<Rightarrow> m(k1 \<mapsto> inner(k2 \<mapsto> v)))"

definition nset :: "'a nmap \<Rightarrow> string \<Rightarrow> string \<Rightarrow> 'a \<Rightarrow> 'a nmap option" where
  "nset m k1 k2 v = (case m k1 of None \<Rightarrow> None | Some inner \<Rightarrow> Some (nput m k1 k2 v))"

record Status =
  Tables :: "Table nmap"

datatype QueryType = USE | INSERT | UPDATE | DELETE | TRUNCATE | PREPARE | MISC

record Query =
  Table :: "Table option"
  Type :: QueryType
  Query :: "byte list"

record PreparedQueries =
  PreparedQueryPathByStreamID :: "16 word \<Rightarrow> string option"
  PreparedQueryPathByPreparedID :: "string \<Rightarrow> string option"

text \<open>
  Package \<open>cqlparser\<close> is not among the sources, so the proxy's operations take it
  as a parameter: the two parsers, which update the registry of prepared statements (the
  request parser returns the paths and an error), and the path of an unknown prepared
  statement.
\<close>

record cqlparser =
  CassandraParseReply :: "PreparedQueries \<Rightarrow> byte list \<Rightarrow> PreparedQueries"
  CassandraParseRequest ::
    "PreparedQueries \<Rightarrow> byte list \<Rightarrow> (string list \<times> string option) \<times> PreparedQueries"
  UnknownPreparedQueryPath :: string

text \<open>
  What the proxy does to the outside, in order: calls of the two parsers, a table paused
  or restarted, a query put on a table's queue, a write to the target connection with its
  result, a sleep (in milliseconds) and a send on \<open>ReadyForRedirect\<close>.
\<close>

datatype event =
    EvParseReply "byte list"
  | EvParseRequest "byte list"
  | EvStop string string
  | EvStart string string
  | EvEnqueue string string Query
  | EvWrite "byte list" bool
  | EvSleep nat
  | EvReadyForRedirect

text \<open>
  The fields of \<open>CQLProxy\<close> that the data plane uses. A queue is the content of its
  channel, a lock is \<open>True\<close> while some goroutine holds it. \<open>astraResults\<close> holds the
  results of the coming calls of \<open>astraSession.Write\<close> (\<open>False\<close> is an error; once the
  list is used up every write succeeds) and \<open>trace\<close> the events so far.
\<close>

record proxy =
  sourceHostString :: string
  astraHostString :: string
  queues :: "Query list nmap"
  queueLocks :: "bool nmap"
  queueSizes :: "int nmap"
  tablePaused :: "bool nmap"
  migrationComplete :: bool
  migrationStatus :: "Status option"
  connectionsToSource :: int
  Keyspace :: string
  Metrics :: Metrics
  preparedQueries :: PreparedQueries
  astraResults :: "bool list"
  trace :: "event list"

definition queueSize :: nat where
  "queueSize = 1000"

text \<open>
  How a call ends: it returns (an \<open>error\<close>, \<open>None\<close> for \<open>nil\<close>; \<open>Return None\<close> also for
  a function without result), it blocks on a lock or a channel, or it panics. In the last
  two cases the state is the one reached at that point.
\<close>

datatype ret = Return "string option" | Block | Panic string

definition log :: "event \<Rightarrow> proxy \<Rightarrow> proxy" where
  "log e p = p\<lparr>trace := trace p @ [e]\<rparr>"

subsection \<open>The target connection\<close>

definition astraWrite :: "byte list \<Rightarrow> proxy \<Rightarrow> bool \<times> proxy" where
  "astraWrite b p =
     (case astraResults p of
        False # rs \<Rightarrow> (False, log (EvWrite b False) (p\<lparr>astraResults := rs\<rparr>))
      | _ \<Rightarrow> (True, log (EvWrite b True) (p\<lparr>astraResults := tl (astraResults p)\<rparr>)))"

definition Sleep :: "nat \<Rightarrow> proxy \<Rightarrow> proxy" where
  "Sleep ms p = log (EvSleep ms) p"

text \<open>
  The loop of \<open>execute\<close>, from \<open>i\<close> on. Its \<open>err\<close> is declared by \<open>:=\<close> inside the body
  and is gone when the loop ends.
\<close>

function execute_loop :: "nat \<Rightarrow> Query \<Rightarrow> proxy \<Rightarrow> proxy" where
  "execute_loop i query p =
     (if i \<le> 5 then
        (case astraWrite (Query query) p of
           (True, p1) \<Rightarrow> p1
         | (False, p1) \<Rightarrow> execute_loop (i + 1) query (Sleep 500 p1))
      else p)"
  by pat_completeness auto
termination
  by (relation "measure (\<lambda>(i, q, p). 6 - i)") auto

declare execute_loop.simps [simp del]

text \<open>
  \<open>execute\<close> returns the \<open>err\<close> of \<open>var err error\<close>, which nothing assigns.
\<close>

definition execute :: "Query \<Rightarrow> proxy \<Rightarrow> ret \<times> proxy" where
  "execute query p =
     (let err = None;
          p1 = execute_loop 1 query p
      in (Return err, p1))"

subsection \<open>Pausing tables and queueing\<close>

definition tableStatus :: "string \<Rightarrow> string \<Rightarrow> proxy \<Rightarrow> Step option" where
  "tableStatus keyspace tableName p =
     (case migrationStatus p of
        None \<Rightarrow> None
      | Some st \<Rightarrow> map_option tblStep (nget (Tables st) keyspace tableName))"

definition paused :: "string \<Rightarrow> string \<Rightarrow> proxy \<Rightarrow> bool" where
  "paused keyspace tableName p =
     (case nget (tablePaused p) keyspace tableName of None \<Rightarrow> False | Some b \<Rightarrow> b)"

definition stopTable :: "string \<Rightarrow> string \<Rightarrow> proxy \<Rightarrow> ret \<times> proxy" where
  "stopTable keyspace tableName p =
     (case nset (tablePaused p) keyspace tableName True of
        None \<Rightarrow> (Panic ''assignment to entry in nil map'', p)
      | Some tp \<Rightarrow>
          let p1 = p\<lparr>tablePaused := tp\<rparr>
          in (case nget (queueLocks p1) keyspace tableName of
                None \<Rightarrow> (Panic ''nil pointer dereference'', p1)
              | Some True \<Rightarrow> (Block, p1)
              | Some False \<Rightarrow>
                  (Return None,
                   log (EvStop keyspace tableName)
                     (p1\<lparr>queueLocks := nput (queueLocks p1) keyspace tableName True\<rparr>))))"

definition startTable :: "string \<Rightarrow> string \<Rightarrow> proxy \<Rightarrow> ret \<times> proxy" where
  "startTable keyspace tableName p =
     (case nset (tablePaused p) keyspace tableName False of
        None \<Rightarrow> (Panic ''assignment to entry in nil map'', p)
      | Some tp \<Rightarrow>
          let p1 = p\<lparr>tablePaused := tp\<rparr>
          in (case nget (queueLocks p1) keyspace tableName of
                None \<Rightarrow> (Panic ''nil pointer dereference'', p1)
              | Some False \<Rightarrow> (Panic ''sync: unlock of unlocked mutex'', p1)
              | Some True \<Rightarrow>
                  (Return None,
                   log (EvStart keyspace tableName)
                     (p1\<lparr>queueLocks := nput (queueLocks p1) keyspace tableName False\<rparr>))))"

text \<open>
  \<open>queueQuery\<close>: the send blocks on a nil channel and on a full one; the counter is
  incremented after the send.
\<close>

definition queueQuery :: "Query \<Rightarrow> proxy \<Rightarrow> ret \<times> proxy" where
  "queueQuery query p =
     (case Table query of
        None \<Rightarrow> (Panic ''nil pointer dereference'', p)
      | Some t \<Rightarrow>
          (case nget (queues p) (tblKeyspace t) (tblName t) of
             None \<Rightarrow> (Block, p)
           | Some q \<Rightarrow>
               if queueSize \<le> length q then (Block, p)
               else
                 let p1 = log (EvEnqueue (tblKeyspace t) (tblName t) query)
                            (p\<lparr>queues := nput (queues p) (tblKeyspace t) (tblName t) (q @ [query])\<rparr>);
                     n = (case nget (queueSizes p1) (tblKeyspace t) (tblName t) of
                            None \<Rightarrow> 0 | Some n \<Rightarrow> n)
                 in (case nset (queueSizes p1) (tblKeyspace t) (tblName t) (n + 1) of
                       None \<Rightarrow> (Panic ''assignment to entry in nil map'', p1)
                     | Some qs \<Rightarrow> (Return None, p1\<lparr>queueSizes := qs\<rparr>))))"

definition tableMissing :: "string \<Rightarrow> string \<Rightarrow> string" where
  "tableMissing keyspace tableName =
     ''table '' @ keyspace @ ''.'' @ tableName @ '' does not exist''"

definition handleInsertQuery :: "byte list \<Rightarrow> string \<Rightarrow> string \<Rightarrow> proxy \<Rightarrow> ret \<times> proxy" where
  "handleInsertQuery query keyspace tableName p =
     (case migrationStatus p of
        None \<Rightarrow> (Panic ''nil pointer dereference'', p)
      | Some st \<Rightarrow>
          (case nget (Tables st) keyspace tableName of
             None \<Rightarrow> (Return (Some (tableMissing keyspace tableName)), p)
           | Some table \<Rightarrow>
               queueQuery \<lparr>Table = Some table, Type = INSERT, Query = query\<rparr> p))"

text \<open>
  \<open>handleUpdateQuery\<close>, \<open>handleDeleteQuery\<close> and \<open>handleTruncateQuery\<close> are the same
  function but for the \<open>Type\<close> of the query they build; \<open>handleWriteQuery\<close> is that
  function.
\<close>

definition handleWriteQuery ::
    "QueryType \<Rightarrow> byte list \<Rightarrow> string \<Rightarrow> string \<Rightarrow> proxy \<Rightarrow> ret \<times> proxy" where
  "handleWriteQuery ty query keyspace tableName p =
     (case migrationStatus p of
        None \<Rightarrow> (Panic ''nil pointer dereference'', p)
      | Some st \<Rightarrow>
          (case nget (Tables st) keyspace tableName of
             None \<Rightarrow> (Return (Some (tableMissing keyspace tableName)), p)
           | Some table \<Rightarrow>
               (case (if \<not> paused keyspace tableName p
                         \<and> tableStatus keyspace tableName p \<noteq> Some LoadingDataComplete
                      then stopTable keyspace tableName p
                      else (Return None, p)) of
                  (Return e, p1) \<Rightarrow>
                    queueQuery \<lparr>Table = Some table, Type = ty, Query = query\<rparr> p1
                | (r, p1) \<Rightarrow> (r, p1))))"

definition handleUpdateQuery :: "byte list \<Rightarrow> string \<Rightarrow> string \<Rightarrow> proxy \<Rightarrow> ret \<times> proxy" where
  "handleUpdateQuery = handleWriteQuery UPDATE"

definition handleDeleteQuery :: "byte list \<Rightarrow> string \<Rightarrow> string \<Rightarrow> proxy \<Rightarrow> ret \<times> proxy" where
  "handleDeleteQuery = handleWriteQuery DELETE"

definition handleTruncateQuery :: "byte list \<Rightarrow> string \<Rightarrow> string \<Rightarrow> proxy \<Rightarrow> ret \<times> proxy" where
  "handleTruncateQuery = handleWriteQuery TRUNCATE"

text \<open>
  The keyspace of a \<open>USE\<close> statement as \<open>handleUseQuery\<close> normalises it; \<open>None\<close> where
  \<open>keyspace[1 : len(keyspace)-1]\<close> panics (the token is one double quote).
\<close>

definition useKeyspace :: "string \<Rightarrow> string option" where
  "useKeyspace keyspace =
     (if HasPrefix keyspace [CHR 0x22] \<and> HasSuffix keyspace [CHR 0x22] then
        (if 1 \<le> length keyspace - 1
         then Some (drop 1 (take (length keyspace - 1) keyspace))
         else None)
      else Some (ToLower keyspace))"

definition handleUseQuery :: "byte list \<Rightarrow> string \<Rightarrow> proxy \<Rightarrow> ret \<times> proxy" where
  "handleUseQuery query keyspace p =
     (case useKeyspace keyspace of
        None \<Rightarrow> (Panic ''slice bounds out of range'', p)
      | Some ks \<Rightarrow>
          (case migrationStatus p of
             None \<Rightarrow> (Panic ''nil pointer dereference'', p)
           | Some st \<Rightarrow>
               if Tables st ks = None then (Return (Some ''invalid keyspace''), p)
               else execute \<lparr>Table = None, Type = USE, Query = query\<rparr> (p\<lparr>Keyspace := ks\<rparr>)))"

subsection \<open>One pass of the loop of \<open>consumeQueue\<close>\<close>

definition consumeQueue :: "string \<Rightarrow> string \<Rightarrow> proxy \<Rightarrow> ret \<times> proxy" where
  "consumeQueue keyspace table p =
     (case nget (queues p) keyspace table of
        None \<Rightarrow> (Block, p)
      | Some [] \<Rightarrow> (Block, p)
      | Some (query # rest) \<Rightarrow>
          let p1 = p\<lparr>queues := nput (queues p) keyspace table rest\<rparr>
          in (case nget (queueLocks p1) keyspace table of
                None \<Rightarrow> (Panic ''nil pointer dereference'', p1)
              | Some True \<Rightarrow> (Block, p1)
              | Some False \<Rightarrow>
                  let p2 = p1\<lparr>queueLocks := nput (queueLocks p1) keyspace table True\<rparr>
                  in (case execute query p2 of
                        (Return err, p3) \<Rightarrow>
                          let p4 = (if err \<noteq> None
                                    then p3\<lparr>Metrics := incrementWriteFails (Metrics p3)\<rparr>
                                    else p3\<lparr>Metrics := incrementWrites (Metrics p3)\<rparr>);
                              n = (case nget (queueSizes p4) keyspace table of
                                     None \<Rightarrow> 0 | Some n \<Rightarrow> n)
                          in (case nset (queueSizes p4) keyspace table (n - 1) of
                                None \<Rightarrow> (Panic ''assignment to entry in nil map'', p4)
                              | Some qs \<Rightarrow>
                                  (Return None,
                                   p4\<lparr>queueSizes := qs,
                                      queueLocks := nput (queueLocks p4) keyspace table False\<rparr>))
                      | (r, p3) \<Rightarrow> (r, p3))))"

subsection \<open>\<open>mirrorData\<close>\<close>

definition mirrorData :: "cqlparser \<Rightarrow> byte list \<Rightarrow> proxy \<Rightarrow> ret \<times> proxy" where
  "mirrorData parser frame p =
     (if length frame < 2 then (Panic ''index out of range'', p)
      else
        let compressionFlag = (frame ! 1) AND 0x01
        in if compressionFlag = 1 then
             (Return (Some ''compression flag set, unable to parse reply beyond header''), p)
           else if frame ! 0 > 0x80 then
             (Return None,
              log (EvParseReply frame)
                (p\<lparr>preparedQueries := CassandraParseReply parser (preparedQueries p) frame\<rparr>))
           else
             (case CassandraParseRequest parser (preparedQueries p) frame of
                ((paths, err), pq) \<Rightarrow>
                  let p1 = log (EvParseRequest frame) (p\<lparr>preparedQueries := pq\<rparr>)
                  in if err \<noteq> None then (Return err, p1)
                     else if length paths = 0 then (Return (Some ''length 0 request''), p1)
                     else if length paths > 1 then (Return None, p1)
                     else if paths ! 0 = UnknownPreparedQueryPath parser then (Return None, p1)
                     else
                       let fields = Split (paths ! 0) (CHR ''/'')
                       in if length fields > 2 then
                            (if fields ! 1 = ''prepare'' then
                               execute \<lparr>Table = None, Type = PREPARE, Query = frame\<rparr> p1
                             else if fields ! 1 = ''query'' \<or> fields ! 1 = ''execute'' then
                               (if length fields \<le> 3 then (Panic ''index out of range'', p1)
                                else
                                  (case extractTableInfo (fields ! 3) of
                                     (ks, table) \<Rightarrow>
                                       let keyspace = (if ks = [] then Keyspace p1 else ks)
                                       in if fields ! 2 = ''use'' then
                                            handleUseQuery frame (fields ! 3) p1
                                          else if fields ! 2 = ''insert'' then
                                            handleInsertQuery frame keyspace table p1
                                          else if fields ! 2 = ''update'' then
                                            handleUpdateQuery frame keyspace table p1
                                          else if fields ! 2 = ''delete'' then
                                            handleDeleteQuery frame keyspace table p1
                                          else if fields ! 2 = ''truncate'' then
                                            handleTruncateQuery frame keyspace table p1
                                          else if fields ! 2 = ''select'' then
                                            (Return None,
                                             p1\<lparr>Metrics := incrementReads (Metrics p1)\<rparr>)
                                          else (Return None, p1)))
                             else (Return None, p1))
                          else execute \<lparr>Table = None, Type = MISC, Query = frame\<rparr> p1))"

section \<open>Connections to the origin and \<open>ReadyForRedirect\<close>\<close>

text \<open>The state that \<open>reset\<close> sets up, for the two host strings.\<close>

definition reset :: "string \<Rightarrow> string \<Rightarrow> proxy" where
  "reset source astra =
     \<lparr>sourceHostString = source, astraHostString = astra,
      queues = Map.empty, queueLocks = Map.empty, queueSizes = Map.empty,
      tablePaused = Map.empty, migrationComplete = False, migrationStatus = None,
      connectionsToSource = 0, Keyspace = [],
      Metrics = \<lparr>PacketCount = 0, Reads = 0, Writes = 0, WriteFails = 0, ReadFails = 0\<rparr>,
      preparedQueries =
        \<lparr>PreparedQueryPathByStreamID = Map.empty, PreparedQueryPathByPreparedID = Map.empty\<rparr>,
      astraResults = [], trace = []\<rparr>"

definition incrementSources :: "proxy \<Rightarrow> proxy" where
  "incrementSources p = p\<lparr>connectionsToSource := connectionsToSource p + 1\<rparr>"

definition decrementSources :: "proxy \<Rightarrow> proxy" where
  "decrementSources p =
     (let p1 = p\<lparr>connectionsToSource := connectionsToSource p - 1\<rparr>
      in if migrationComplete p1 \<and> connectionsToSource p1 = 0
         then log EvReadyForRedirect p1
         else p1)"

text \<open>
  \<open>handleDatabaseConnection\<close> in its two halves, before and after \<open>net.Dial\<close>: the
  choice of the host, and the count of the connection once the dial has succeeded.
\<close>

definition selectHost :: "proxy \<Rightarrow> string" where
  "selectHost p = (if migrationComplete p then astraHostString p else sourceHostString p)"

definition dialed :: "string \<Rightarrow> proxy \<Rightarrow> proxy" where
  "dialed hostname p = (if hostname = sourceHostString p then incrementSources p else p)"

text \<open>The deferred call at the end of \<open>forward(conn, dst)\<close>, for the remote address of \<open>dst\<close>.\<close>

definition forwardReturns :: "string \<Rightarrow> proxy \<Rightarrow> proxy" where
  "forwardReturns remote p = (if remote = sourceHostString p then decrementSources p else p)"

text \<open>
  The goroutines of the proxy run interleaved. An execution is a list of the steps that
  touch the counter and the flag, each atomic in the code (the counter is only touched
  under \<open>p.lock\<close>): \<open>Accept c\<close> is the handler of client connection \<open>c\<close> choosing its
  host, \<open>DialOk c\<close> and \<open>DialFail c\<close> the end of its dial, \<open>Close c\<close> the end of the
  forwarders of \<open>c\<close>, and \<open>Complete\<close> the migration loop receiving from
  \<open>MigrationCompleteChan\<close>. \<open>dialing\<close> and \<open>forwarding\<close> hold, for the connections
  being dialled and being forwarded, the host string chosen. The remote address of a
  dialled connection is taken to be the host string dialled, and no client has the
  address of the origin, so of the two forwarders of a connection only the one towards
  the upstream can decrement the counter. A send on \<open>ReadyForRedirect\<close> is taken to
  find its receiver.
\<close>

record system =
  px :: proxy
  dialing :: "(nat \<times> string) list"
  forwarding :: "(nat \<times> string) list"

datatype action = Accept nat | DialOk nat | DialFail nat | Close nat | Complete

fun step :: "action \<Rightarrow> system \<Rightarrow> system option" where
  "step (Accept c) w = Some (w\<lparr>dialing := dialing w @ [(c, selectHost (px w))]\<rparr>)"
| "step (DialOk c) w =
     (case map_of (dialing w) c of
        None \<Rightarrow> None
      | Some h \<Rightarrow>
          Some (w\<lparr>px := dialed h (px w),
                 dialing := remove1 (c, h) (dialing w),
                 forwarding := forwarding w @ [(c, h)]\<rparr>))"
| "step (DialFail c) w =
     (case map_of (dialing w) c of
        None \<Rightarrow> None
      | Some h \<Rightarrow> Some (w\<lparr>dialing := remove1 (c, h) (dialing w)\<rparr>))"
| "step (Close c) w =
     (case map_of (forwarding w) c of
        None \<Rightarrow> None
      | Some h \<Rightarrow>
          Some (w\<lparr>px := forwardReturns h (px w),
                 forwarding := remove1 (c, h) (forwarding w)\<rparr>))"
| "step Complete w = Some (w\<lparr>px := (px w)\<lparr>migrationComplete := True\<rparr>\<rparr>)"

fun run :: "action list \<Rightarrow> system \<Rightarrow> system option" where
  "run [] w = Some w"
| "run (a # as) w = (case step a w of None \<Rightarrow> None | Some w1 \<Rightarrow> run as w1)"

definition system_init :: "string \<Rightarrow> string \<Rightarrow> bool \<Rightarrow> system" where
  "system_init source astra complete =
     \<lparr>px = (reset source astra)\<lparr>migrationComplete := complete\<rparr>, dialing = [], forwarding = []\<rparr>"

definition readySignals :: "proxy \<Rightarrow> nat" where
  "readySignals p = length (filter (\<lambda>e. e = EvReadyForRedirect) (trace p))"

text \<open>
  The executions in which no other step comes between a handler's choice of the host and
  the end of its dial.
\<close>

fun undivided :: "action list \<Rightarrow> bool" where
  "undivided [] = True"
| "undivided (Accept c # DialOk c' # as) = (c = c' \<and> undivided as)"
| "undivided (Accept c # DialFail c' # as) = (c = c' \<and> undivided as)"
| "undivided (Accept c # as) = False"
| "undivided (DialOk c # as) = False"
| "undivided (DialFail c # as) = False"
| "undivided (Close c # as) = undivided as"
| "undivided (Complete # as) = undivided as"

section \<open>Definitions for the statements and proofs\<close>

definition frame_ok :: "byte list \<Rightarrow> bool" where
  "frame_ok f \<longleftrightarrow> length f = cassHdrLen + unat (Uint32 (take 4 (drop 5 f)))"

definition fullLength :: "forwarder \<Rightarrow> nat" where
  "fullLength s = cassHdrLen + unat (Uint32 (take 4 (drop 5 (data s))))"

definition fwd_inv :: "forwarder \<Rightarrow> forwarder \<Rightarrow> bool" where
  "fwd_inv s s' \<longleftrightarrow>
     concat (dstWritten s') @ data s' = concat (dstWritten s) @ data s
   \<and> pending s' = pending s
   \<and> returned s' = returned s
   \<and> ((\<forall>f\<in>set (dstWritten s). frame_ok f) \<longrightarrow> (\<forall>f\<in>set (dstWritten s'). frame_ok f))"

definition stream_of :: "forwarder \<Rightarrow> byte list" where
  "stream_of s = concat (dstWritten s) @ data s @ pending s"

definition frames_ok :: "forwarder \<Rightarrow> bool" where
  "frames_ok s \<longleftrightarrow> (\<forall>f\<in>set (dstWritten s). frame_ok f)"

definition oversize :: "forwarder \<Rightarrow> bool" where
  "oversize s \<longleftrightarrow>
     9 \<le> length (data s) \<and> cassMaxLen < unat (Uint32 (take 4 (drop 5 (data s))))"

text \<open>
  A stream of two frames (the first with a body of two bytes) and three bytes of a third,
  and a header that announces a body of \<open>0x10000001\<close> bytes, followed by one byte.
\<close>

definition ex_stream :: "byte list" where
  "ex_stream = [4, 0, 0, 1, 7, 0, 0, 0, 2, 0xAA, 0xBB, 4, 0, 0, 2, 5, 0, 0, 0, 0, 4, 0, 0]"

definition ex_oversize :: "byte list" where
  "ex_oversize = [4, 0, 0, 1, 7, 0x10, 0, 0, 1, 0xFF]"

text \<open>A string up to the first \<open>c\<close>, and what follows the first \<open>c\<close>.\<close>

definition before :: "char \<Rightarrow> string \<Rightarrow> string" where
  "before c s = takeWhile (\<lambda>x. x \<noteq> c) s"

definition after :: "char \<Rightarrow> string \<Rightarrow> string" where
  "after c s = (if c \<in> set s then tl (dropWhile (\<lambda>x. x \<noteq> c) s) else s)"

text \<open>Counting in a trace: the writes to the target, the failed ones, and the time slept.\<close>

fun is_write :: "event \<Rightarrow> bool" where
  "is_write (EvWrite b ok) = True"
| "is_write e = False"

fun is_failed_write :: "event \<Rightarrow> bool" where
  "is_failed_write (EvWrite b ok) = (\<not> ok)"
| "is_failed_write e = False"

fun sleep_ms :: "event \<Rightarrow> nat" where
  "sleep_ms (EvSleep ms) = ms"
| "sleep_ms e = 0"

definition attempts :: "event list \<Rightarrow> nat" where
  "attempts es = length (filter is_write es)"

definition failures :: "event list \<Rightarrow> nat" where
  "failures es = length (filter is_failed_write es)"

definition slept :: "event list \<Rightarrow> nat" where
  "slept es = sum_list (map sleep_ms es)"

text \<open>The events of a call that takes \<open>p\<close> to \<open>p'\<close>.\<close>

definition new_events :: "proxy \<Rightarrow> proxy \<Rightarrow> event list" where
  "new_events p p' = drop (length (trace p)) (trace p')"

text \<open>
  The events of \<open>n\<close> attempts to write \<open>b\<close>, for the results of the writes to come.
\<close>

fun retry_events :: "nat \<Rightarrow> byte list \<Rightarrow> bool list \<Rightarrow> event list" where
  "retry_events 0 b rs = []"
| "retry_events (Suc n) b (False # rs) = EvWrite b False # EvSleep 500 # retry_events n b rs"
| "retry_events (Suc n) b rs = [EvWrite b True]"

text \<open>
  A proxy as \<open>loadMigrationInfo\<close> leaves it for the status \<open>{ks1: {t1}}\<close>, with \<open>t1\<close>
  not yet loaded; a \<open>QUERY\<close> frame with an empty body, and an \<open>INSERT\<close> of it on \<open>t1\<close>.
\<close>

definition ex_table :: Table where
  "ex_table = \<lparr>tblKeyspace = ''ks1'', tblName = ''t1'', tblStep = OtherStep 0\<rparr>"

definition ex_proxy :: proxy where
  "ex_proxy =
     (reset ''10.0.0.1:9042'' ''10.0.0.2:9042'')
       \<lparr>queues := [''ks1'' \<mapsto> [''t1'' \<mapsto> []]],
        queueLocks := [''ks1'' \<mapsto> [''t1'' \<mapsto> False]],
        queueSizes := [''ks1'' \<mapsto> Map.empty],
        tablePaused := [''ks1'' \<mapsto> Map.empty],
        migrationStatus := Some \<lparr>Tables = [''ks1'' \<mapsto> [''t1'' \<mapsto> ex_table]]\<rparr>\<rparr>"

definition ex_frame :: "byte list" where
  "ex_frame = [4, 0, 0, 1, 7, 0, 0, 0, 0]"

definition ex_query :: Query where
  "ex_query = \<lparr>Table = Some ex_table, Type = INSERT, Query = ex_frame\<rparr>"

text \<open>
  The example proxy with the \<open>INSERT\<close> on the queue of \<open>t1\<close> and a target on which
  the next five writes fail.
\<close>

definition ex_failing :: proxy where
  "ex_failing =
     ex_proxy\<lparr>queues := [''ks1'' \<mapsto> [''t1'' \<mapsto> [ex_query]]],
              queueSizes := [''ks1'' \<mapsto> [''t1'' \<mapsto> 1]],
              astraResults := [False, False, False, False, False]\<rparr>"

text \<open>
  Calls of the reply parser in a trace, and a call that adds none: the trace of \<open>p'\<close>
  is the trace of \<open>p\<close> followed by events that are no calls of the reply parser.
\<close>

fun is_parse_reply :: "event \<Rightarrow> bool" where
  "is_parse_reply (EvParseReply b) = True"
| "is_parse_reply e = False"

definition adds_no_reply :: "proxy \<Rightarrow> proxy \<Rightarrow> bool" where
  "adds_no_reply p p' \<longleftrightarrow>
     (\<exists>es. trace p' = trace p @ es \<and> (\<forall>e\<in>set es. \<not> is_parse_reply e))"

text \<open>
  A stand-in for the parser package where a statement is evaluated: it answers every
  request with the given paths and no error, and leaves the registry of prepared
  statements as it is.
\<close>

definition ex_parser :: "string list \<Rightarrow> cqlparser" where
  "ex_parser paths =
     \<lparr>CassandraParseReply = (\<lambda>pq b. pq),
      CassandraParseRequest = (\<lambda>pq b. ((paths, None), pq)),
      UnknownPreparedQueryPath = ''unknown-prepared''\<rparr>"

text \<open>Frames with an empty body whose first byte is \<open>0x80\<close>, and \<open>0x84\<close>.\<close>

definition ex_frame80 :: "byte list" where
  "ex_frame80 = [0x80, 0, 0, 1, 8, 0, 0, 0, 0]"

definition ex_frame84 :: "byte list" where
  "ex_frame84 = [0x84, 0, 0, 1, 8, 0, 0, 0, 0]"

text \<open>
  The connections being forwarded to the origin, and the invariant of the executions in
  which no handler is divided: no dial is pending, the two hosts differ, the counter is
  the number of connections to the origin, and \<open>ReadyForRedirect\<close> has been sent
  either never, or once with the migration complete and the counter at zero.
\<close>

definition open_to_source :: "system \<Rightarrow> nat" where
  "open_to_source w = length (filter (\<lambda>(c, h). h = sourceHostString (px w)) (forwarding w))"

definition drain_inv :: "system \<Rightarrow> bool" where
  "drain_inv w \<longleftrightarrow>
     dialing w = []
   \<and> sourceHostString (px w) \<noteq> astraHostString (px w)
   \<and> connectionsToSource (px w) = int (open_to_source w)
   \<and> (readySignals (px w) = 0
      \<or> readySignals (px w) = 1 \<and> migrationComplete (px w) \<and> connectionsToSource (px w) = 0)"

text \<open>
  A proxy after \<open>Complete\<close> with one connection to the origin left. An execution in
  which connection 2 chooses the origin before \<open>Complete\<close> and is counted only after
  connection 1 has closed, and one in which no handler is divided.
\<close>

definition ex_draining :: system where
  "ex_draining =
     \<lparr>px = (reset ''10.0.0.1:9042'' ''10.0.0.2:9042'')
              \<lparr>migrationComplete := True, connectionsToSource := 1\<rparr>,
      dialing = [], forwarding = [(1, ''10.0.0.1:9042'')]\<rparr>"

definition ex_race :: "action list" where
  "ex_race = [Accept 1, DialOk 1, Accept 2, Complete, Close 1, DialOk 2, Close 2]"

definition ex_drain :: "action list" where
  "ex_drain = [Accept 1, DialOk 1, Accept 2, DialOk 2, Complete, Close 1, Accept 3, DialOk 3,
               Close 2, Close 3]"

section \<open>The demarshaller: proofs\<close>

lemma header_of_take: "take 4 (drop 5 (take (9 + k) xs)) = take 4 (drop 5 xs)"
  by (simp add: drop_take min_def)

lemma frame_ok_take:
  assumes "cassHdrLen + unat (Uint32 (take 4 (drop 5 xs))) \<le> length xs"
  shows "frame_ok (take (cassHdrLen + unat (Uint32 (take 4 (drop 5 xs)))) xs)"
  using assms unfolding frame_ok_def cassHdrLen_def
  by (simp only: header_of_take length_take min_absorb2)

lemma forward_frames_wait:
  "length (data s) < cassHdrLen \<or> length (data s) < fullLength s \<or> length (data s) > cassMaxLen
   \<Longrightarrow> forward_frames t s = s"
  by (subst forward_frames.simps) (auto simp: fullLength_def Let_def)

lemma forward_frames_retry:
  "\<not> length (data s) < cassHdrLen \<Longrightarrow> \<not> length (data s) < fullLength s \<Longrightarrow>
   \<not> length (data s) > cassMaxLen \<Longrightarrow> dstResults s = False # rs \<Longrightarrow>
   forward_frames t s = forward_frames t (s\<lparr>dstResults := rs\<rparr>)"
  by (subst forward_frames.simps) (simp add: fullLength_def Let_def)

lemma forward_frames_emit:
  "\<not> length (data s) < cassHdrLen \<Longrightarrow> \<not> length (data s) < fullLength s \<Longrightarrow>
   \<not> length (data s) > cassMaxLen \<Longrightarrow> dstResults s = [] \<or> dstResults s = True # rs \<Longrightarrow>
   forward_frames t s =
     forward_frames t
       (s\<lparr>dstResults := tl (dstResults s),
          dstWritten := dstWritten s @ [take (fullLength s) (data s)],
          mirrored := (if t then mirrored s @ [take (fullLength s) (data s)] else mirrored s),
          metrics := incrementPackets (metrics s),
          data := drop (fullLength s) (data s)\<rparr>)"
  by (subst forward_frames.simps) (auto simp add: fullLength_def Let_def)

lemma fwd_inv_refl: "fwd_inv s s"
  by (simp add: fwd_inv_def)

lemma fwd_inv_trans: "fwd_inv s s1 \<Longrightarrow> fwd_inv s1 s2 \<Longrightarrow> fwd_inv s s2"
  unfolding fwd_inv_def by (elim conjE, intro conjI) (erule (1) trans[rotated] | blast)+

lemma fwd_inv_retry: "fwd_inv s (s\<lparr>dstResults := rs\<rparr>)"
  by (simp add: fwd_inv_def)

lemma fwd_inv_emit:
  assumes "\<not> length (data s) < fullLength s"
  shows "fwd_inv s (s\<lparr>dstResults := rs, dstWritten := dstWritten s @ [take (fullLength s) (data s)],
          mirrored := m, metrics := c, data := drop (fullLength s) (data s)\<rparr>)"
proof -
  have "frame_ok (take (fullLength s) (data s))"
    unfolding fullLength_def using assms by (intro frame_ok_take) (simp add: fullLength_def)
  then show ?thesis by (simp add: fwd_inv_def)
qed

lemma forward_frames_inv: "fwd_inv s (forward_frames t s)"
proof (induction t s rule: forward_frames.induct)
  case (1 t s)
  show ?case
  proof (cases "length (data s) < cassHdrLen \<or> length (data s) < fullLength s \<or> length (data s) > cassMaxLen")
    case True
    then show ?thesis by (simp only: forward_frames_wait fwd_inv_refl)
  next
    case False
    then have c: "\<not> length (data s) < cassHdrLen" "\<not> length (data s) < fullLength s"
      "\<not> length (data s) > cassMaxLen" by auto
    have c2: "\<not> (length (data s) < cassHdrLen + unat (Uint32 (take 4 (drop 5 (data s)))) \<or> length (data s) > cassMaxLen)"
      using c by (simp add: fullLength_def)
    show ?thesis
    proof (cases "dstResults s")
      case Nil
      note ih = "1.IH"(1)[OF c(1) refl refl c2 refl Nil, folded fullLength_def]
      have eq: "forward_frames t s = forward_frames t
       (s\<lparr>dstResults := tl (dstResults s),
          dstWritten := dstWritten s @ [take (fullLength s) (data s)],
          mirrored := (if t then mirrored s @ [take (fullLength s) (data s)] else mirrored s),
          metrics := incrementPackets (metrics s),
          data := drop (fullLength s) (data s)\<rparr>)"
        using Nil by (intro forward_frames_emit[OF c, of "[]"]) simp
      show ?thesis unfolding eq by (rule fwd_inv_trans[OF fwd_inv_emit[OF c(2)] ih])
    next
      case (Cons b rs)
      show ?thesis
      proof (cases b)
        case True
        from True have bT: "b = True" by simp
        note ih = "1.IH"(2)[OF c(1) refl refl c2 refl Cons bT, folded fullLength_def]
        have eq: "forward_frames t s = forward_frames t
         (s\<lparr>dstResults := tl (dstResults s),
            dstWritten := dstWritten s @ [take (fullLength s) (data s)],
            mirrored := (if t then mirrored s @ [take (fullLength s) (data s)] else mirrored s),
            metrics := incrementPackets (metrics s),
            data := drop (fullLength s) (data s)\<rparr>)"
          using Cons True by (intro forward_frames_emit[OF c, of rs]) simp
        show ?thesis unfolding eq by (rule fwd_inv_trans[OF fwd_inv_emit[OF c(2)] ih])
      next
        case False
        from False have bF: "b = False" by simp
        note ih = "1.IH"(3)[OF c(1) refl refl c2 refl Cons bF]
        have eq: "forward_frames t s = forward_frames t (s\<lparr>dstResults := rs\<rparr>)"
          using Cons False by (intro forward_frames_retry[OF c]) simp
        show ?thesis unfolding eq by (rule fwd_inv_trans[OF fwd_inv_retry ih])
      qed
    qed
  qed
qed

lemma fwd_inv_stream:
  "fwd_inv s s' \<Longrightarrow> concat (dstWritten s') @ data s' = concat (dstWritten s) @ data s"
  unfolding fwd_inv_def by (elim conjE)

lemma fwd_inv_pending: "fwd_inv s s' \<Longrightarrow> pending s' = pending s"
  unfolding fwd_inv_def by (elim conjE)

lemma fwd_inv_frames:
  "fwd_inv s s' \<Longrightarrow> \<forall>f\<in>set (dstWritten s). frame_ok f \<Longrightarrow> \<forall>f\<in>set (dstWritten s'). frame_ok f"
  unfolding fwd_inv_def by (elim conjE impE)

lemma forward_frames_stream: "stream_of (forward_frames t s) = stream_of s"
proof -
  have "stream_of (forward_frames t s)
          = (concat (dstWritten (forward_frames t s)) @ data (forward_frames t s)) @ pending (forward_frames t s)"
    by (simp only: stream_of_def append_assoc)
  also have "\<dots> = (concat (dstWritten s) @ data s) @ pending s"
    by (simp only: fwd_inv_stream[OF forward_frames_inv] fwd_inv_pending[OF forward_frames_inv])
  finally show ?thesis by (simp only: stream_of_def append_assoc)
qed

lemma forward_frames_ok: "frames_ok s \<Longrightarrow> frames_ok (forward_frames t s)"
  unfolding frames_ok_def by (rule fwd_inv_frames[OF forward_frames_inv])

lemma forward_read_inv:
  "stream_of (forward_read t r s) = stream_of s \<and> (frames_ok s \<longrightarrow> frames_ok (forward_read t r s))"
proof (cases "returned s")
  case True
  then show ?thesis by (simp add: forward_read_def)
next
  case False
  show ?thesis
  proof (cases r)
    case RdErr
    with False show ?thesis by (simp add: forward_read_def stream_of_def frames_ok_def)
  next
    case (Rd n)
    define k where "k = min n (min 65535 (length (pending s)))"
    define s1 where "s1 = s\<lparr>data := data s @ take k (pending s), pending := drop k (pending s)\<rparr>"
    have eq: "forward_read t r s = forward_frames t s1"
      using False Rd by (simp add: forward_read_def s1_def k_def Let_def)
    have a: "stream_of s1 = stream_of s"
      by (simp add: s1_def stream_of_def)
    have b: "frames_ok s1 = frames_ok s"
      by (simp add: s1_def frames_ok_def)
    show ?thesis
      unfolding eq using forward_frames_ok[of s1 t] by (simp only: forward_frames_stream a b) simp
  qed
qed

lemma forward_inv:
  "stream_of (forward t rs s) = stream_of s \<and> (frames_ok s \<longrightarrow> frames_ok (forward t rs s))"
proof (induction rs arbitrary: s)
  case Nil
  show ?case by simp
next
  case (Cons r rs)
  from Cons.IH[of "forward_read t r s"] forward_read_inv[of t r s]
  show ?case by simp
qed

text \<open>
  C1. Whatever the stream, the reads and the results of the writes: the frames written to
  the destination, followed by the reassembly buffer and by the bytes not yet read, are
  the stream (so the frames, concatenated, are the prefix of the input consumed so far,
  in order and without repetition), and every frame written has length
  \<open>9 + big_endian_u32(f[5..9))\<close>.
\<close>

theorem demarshaller_output_is_input:
  "concat (dstWritten (forward toSource reads (forward_init stream results)))
     @ data (forward toSource reads (forward_init stream results))
     @ pending (forward toSource reads (forward_init stream results)) = stream
   \<and> (\<forall>f \<in> set (dstWritten (forward toSource reads (forward_init stream results))).
         length f = 9 + unat (Uint32 (take 4 (drop 5 f))))"
proof -
  let ?s = "forward_init stream results"
  note inv = forward_inv[of toSource reads ?s]
  have s0: "stream_of ?s = stream" "frames_ok ?s"
    by (simp_all add: forward_init_def stream_of_def frames_ok_def)
  from inv s0 have a: "stream_of (forward toSource reads ?s) = stream"
    and b: "frames_ok (forward toSource reads ?s)" by simp_all
  from a b show ?thesis
    unfolding stream_of_def frames_ok_def frame_ok_def cassHdrLen_def by blast
qed

lemma ex_stream_frames:
  "dstWritten (forward True [Rd 5, Rd 100] (forward_init ex_stream [False]))
     = [[4, 0, 0, 1, 7, 0, 0, 0, 2, 0xAA, 0xBB], [4, 0, 0, 2, 5, 0, 0, 0, 0]]"
  by (simp add: forward_init_def ex_stream_def forward_read_def forward_frames.simps Let_def
      cassHdrLen_def cassMaxLen_def Uint32_def incrementPackets_def)

theorem demarshaller_output_is_input_witness:
  "dstWritten (forward True [Rd 5, Rd 100] (forward_init ex_stream [False]))
     = [[4, 0, 0, 1, 7, 0, 0, 0, 2, 0xAA, 0xBB], [4, 0, 0, 2, 5, 0, 0, 0, 0]]
   \<and> length [4, 0, 0, 1, 7, 0, 0, 0, 2, 0xAA, 0xBB :: byte]
       = 9 + unat (Uint32 (take 4 (drop 5 [4, 0, 0, 1, 7, 0, 0, 0, 2, 0xAA, 0xBB])))
   \<and> length [4, 0, 0, 2, 5, 0, 0, 0, 0 :: byte]
       = 9 + unat (Uint32 (take 4 (drop 5 [4, 0, 0, 2, 5, 0, 0, 0, 0])))
   \<and> concat (dstWritten (forward True [Rd 5, Rd 100] (forward_init ex_stream [False])))
       @ data (forward True [Rd 5, Rd 100] (forward_init ex_stream [False]))
       @ pending (forward True [Rd 5, Rd 100] (forward_init ex_stream [False])) = ex_stream"
  using demarshaller_output_is_input [of True "[Rd 5, Rd 100]" ex_stream "[False]"]
  unfolding ex_stream_frames
  by simp

lemma oversize_wait: "oversize s \<Longrightarrow> forward_frames t s = s"
  by (rule forward_frames_wait) (auto simp: oversize_def fullLength_def cassHdrLen_def)

lemma oversize_append: "oversize s \<Longrightarrow> oversize (s\<lparr>data := data s @ bs, pending := ps\<rparr>)"
  by (simp add: oversize_def)

lemma oversize_forward_read:
  assumes "oversize s"
  shows "oversize (forward_read t r s) \<and> dstWritten (forward_read t r s) = dstWritten s
         \<and> (returned (forward_read t r s) \<longrightarrow> returned s \<or> r = RdErr)"
proof (cases "returned s")
  case True
  with assms show ?thesis by (simp add: forward_read_def)
next
  case False
  show ?thesis
  proof (cases r)
    case RdErr
    with False assms show ?thesis by (simp add: forward_read_def oversize_def)
  next
    case (Rd n)
    with False assms show ?thesis
      by (simp add: forward_read_def Let_def oversize_wait [OF oversize_append] oversize_append)
  qed
qed

lemma oversize_forward:
  "oversize s \<Longrightarrow>
     oversize (forward t rs s) \<and> dstWritten (forward t rs s) = dstWritten s
     \<and> (returned (forward t rs s) \<longrightarrow> returned s \<or> RdErr \<in> set rs)"
proof (induction rs arbitrary: s)
  case Nil
  then show ?case by simp
next
  case (Cons r rs)
  from oversize_forward_read [OF Cons.prems, of t r]
  have a: "oversize (forward_read t r s)"
    and b: "dstWritten (forward_read t r s) = dstWritten s"
    and c: "returned (forward_read t r s) \<longrightarrow> returned s \<or> r = RdErr"
    by simp_all
  from Cons.IH [OF a] b c show ?case by auto
qed

text \<open>
  C2, as the code has it. Once the buffer starts with a header whose body length exceeds
  256 MiB, the demarshaller writes no frame any more, whatever is read afterwards; it
  raises no error, and the forwarder returns only when a read fails.
\<close>

theorem oversize_frame_is_never_emitted:
  assumes "9 \<le> length (data s)"
    and "cassMaxLen < unat (Uint32 (take 4 (drop 5 (data s))))"
  shows "forward_frames toSource s = s
         \<and> dstWritten (forward toSource reads s) = dstWritten s
         \<and> (returned (forward toSource reads s) \<longrightarrow> returned s \<or> RdErr \<in> set reads)"
proof -
  from assms have o: "oversize s" by (simp add: oversize_def)
  from oversize_wait [OF o] oversize_forward [OF o] show ?thesis by simp
qed

lemma ex_oversize_state:
  "forward True [Rd 9] (forward_init ex_oversize []) =
     (forward_init [0xFF] [])\<lparr>data := [4, 0, 0, 1, 7, 0x10, 0, 0, 1]\<rparr>"
  by (simp add: forward_init_def ex_oversize_def forward_read_def forward_frames.simps Let_def
      cassHdrLen_def cassMaxLen_def Uint32_def)

theorem oversize_frame_is_never_emitted_witness:
  "dstWritten (forward True [Rd 1, Rd 7]
       ((forward_init [0xFF] [])\<lparr>data := [4, 0, 0, 1, 7, 0x10, 0, 0, 1]\<rparr>)) = []
   \<and> \<not> returned (forward True [Rd 1, Rd 7]
       ((forward_init [0xFF] [])\<lparr>data := [4, 0, 0, 1, 7, 0x10, 0, 0, 1]\<rparr>))"
  using oversize_frame_is_never_emitted
    [of "(forward_init [0xFF] [])\<lparr>data := [4, 0, 0, 1, 7, 0x10, 0, 0, 1]\<rparr>" True "[Rd 1, Rd 7]"]
  by (simp add: forward_init_def Uint32_def cassMaxLen_def)

text \<open>
  C2 fails as stated. The header announces \<open>0x10000001\<close> bytes, one more than 256 MiB.
  After it has been read, and one more byte, the forwarder has not returned and has
  raised nothing: it holds the ten bytes and waits for the next read.
\<close>

theorem oversize_frame_error_counterexample:
  "forward True [Rd 9, Rd 1] (forward_init ex_oversize []) =
     (forward_init [] [])\<lparr>data := ex_oversize\<rparr>
   \<and> cassMaxLen < unat (Uint32 (take 4 (drop 5 ex_oversize)))
   \<and> \<not> returned (forward True [Rd 9, Rd 1] (forward_init ex_oversize []))"
  by (simp add: forward_init_def ex_oversize_def forward_read_def forward_frames.simps Let_def
      cassHdrLen_def cassMaxLen_def Uint32_def)

section \<open>Table references: proofs\<close>

lemma IndexRune_ge: "- 1 \<le> IndexRune xs c"
  by (induction xs) (auto simp: Let_def)

lemma IndexRune_none: "IndexRune xs c = - 1 \<longleftrightarrow> c \<notin> set xs"
proof (induction xs)
  case Nil
  show ?case by simp
next
  case (Cons x xs)
  from IndexRune_ge [of xs c] have "IndexRune xs c + 1 \<noteq> - 1" by simp
  with Cons show ?case by (simp add: Let_def)
qed

lemma IndexRune_take:
  "c \<in> set xs \<Longrightarrow> take (nat (IndexRune xs c)) xs = takeWhile (\<lambda>x. x \<noteq> c) xs"
proof (induction xs)
  case Nil
  then show ?case by simp
next
  case (Cons x xs)
  show ?case
  proof (cases "x = c")
    case True
    then show ?thesis by simp
  next
    case False
    with Cons.prems have m: "c \<in> set xs" by simp
    then have n: "IndexRune xs c \<noteq> - 1" by (simp add: IndexRune_none)
    with IndexRune_ge [of xs c] have "nat (IndexRune xs c + 1) = Suc (nat (IndexRune xs c))"
      by simp
    with False n Cons.IH [OF m] show ?thesis by (simp add: Let_def)
  qed
qed

lemma IndexRune_drop:
  "c \<in> set xs \<Longrightarrow> drop (nat (IndexRune xs c + 1)) xs = tl (dropWhile (\<lambda>x. x \<noteq> c) xs)"
proof (induction xs)
  case Nil
  then show ?case by simp
next
  case (Cons x xs)
  show ?case
  proof (cases "x = c")
    case True
    then show ?thesis by simp
  next
    case False
    with Cons.prems have m: "c \<in> set xs" by simp
    then have n: "IndexRune xs c \<noteq> - 1" by (simp add: IndexRune_none)
    with IndexRune_ge [of xs c] have "nat (IndexRune xs c + 1 + 1) = Suc (nat (IndexRune xs c + 1))"
      by simp
    with False n Cons.IH [OF m] show ?thesis by (simp add: Let_def)
  qed
qed

lemma before_id: "c \<notin> set s \<Longrightarrow> before c s = s"
  by (auto simp: before_def takeWhile_eq_all_conv)

lemma cut_before:
  "(let i = IndexRune s c in if i \<noteq> - 1 then take (nat i) s else s) = before c s"
  by (cases "c \<in> set s") (simp_all add: Let_def IndexRune_none IndexRune_take before_id, simp add: before_def)

lemma cut_after:
  "(let i = IndexRune s c in if i \<noteq> - 1 then drop (nat (i + 1)) s else s) = after c s"
  by (cases "c \<in> set s") (simp_all add: Let_def IndexRune_none IndexRune_drop after_def)

lemma cut_keyspace:
  "(let i = IndexRune s c in if i \<noteq> - 1 then take (nat i) s else []) = (if c \<in> set s then before c s else [])"
  by (cases "c \<in> set s") (simp_all add: Let_def IndexRune_none IndexRune_take before_def)

lemma extractTableInfo_eq:
  "extractTableInfo s =
     (if CHR ''.'' \<in> set s then before (CHR ''.'') s else [],
      before (CHR ''('') (after (CHR ''.'') (before (CHR '';'') s)))"
proof -
  have "extractTableInfo s =
     (let keyspace = (if CHR ''.'' \<in> set s then before (CHR ''.'') s else []);
          tableName = s;
          tableName = before (CHR '';'') tableName;
          tableName = after (CHR ''.'') tableName;
          tableName = before (CHR ''('') tableName
      in (keyspace, tableName))"
    unfolding extractTableInfo_def by (simp only: cut_before cut_after cut_keyspace)
  then show ?thesis by (simp add: Let_def)
qed

lemma before_snoc: "before c (s @ [c]) = before c s"
  by (induction s) (simp_all add: before_def)

lemma before_append_mem: "c \<in> set s \<Longrightarrow> before c (s @ t) = before c s"
  by (induction s) (auto simp: before_def)

lemma before_append_notin: "c \<notin> set s \<Longrightarrow> before c (s @ c # t) = s"
  by (induction s) (auto simp: before_def)

lemma after_append_notin: "c \<notin> set s \<Longrightarrow> after c (s @ c # t) = t"
  by (induction s) (auto simp: after_def)

text \<open>
  C9. For every keyspace and table, \<open>extractTableInfo\<close> gives the same pair on
  \<open>keyspace.table\<close> and on \<open>keyspace.table;\<close>, and that pair is the keyspace and the
  table when they are plain names (no \<open>.\<close> or \<open>;\<close> in the keyspace, no \<open>;\<close> or \<open>(\<close>
  in the table).
\<close>

theorem extractTableInfo_semicolon:
  "extractTableInfo (keyspace @ ''.'' @ table) = extractTableInfo (keyspace @ ''.'' @ table @ '';'')
   \<and> (CHR ''.'' \<notin> set keyspace \<and> CHR '';'' \<notin> set keyspace \<and> CHR '';'' \<notin> set table
        \<and> CHR ''('' \<notin> set table
      \<longrightarrow> extractTableInfo (keyspace @ ''.'' @ table @ '';'') = (keyspace, table))"
proof -
  let ?s = "keyspace @ ''.'' @ table"
  have s2: "keyspace @ ''.'' @ table @ '';'' = ?s @ [CHR '';'']" by simp
  have dot: "CHR ''.'' \<in> set ?s" by simp
  have a: "extractTableInfo (?s @ [CHR '';'']) = extractTableInfo ?s"
    unfolding extractTableInfo_eq
    using dot by (simp only: before_snoc before_append_mem [OF dot]) simp
  have b: "extractTableInfo ?s = (keyspace, table)"
    if h: "CHR ''.'' \<notin> set keyspace" "CHR '';'' \<notin> set keyspace" "CHR '';'' \<notin> set table"
      "CHR ''('' \<notin> set table"
  proof -
    from h have "CHR '';'' \<notin> set ?s" by simp
    then have 1: "before (CHR '';'') ?s = ?s" by (rule before_id)
    have 2: "after (CHR ''.'') ?s = table"
      using after_append_notin [OF h(1), of table] by simp
    have 3: "before (CHR ''.'') ?s = keyspace"
      using before_append_notin [OF h(1), of table] by simp
    show ?thesis unfolding extractTableInfo_eq
      by (simp only: 1 2 3 before_id [OF h(4)] dot if_True)
  qed
  from a b show ?thesis unfolding s2 by simp
qed

theorem extractTableInfo_semicolon_witness:
  "extractTableInfo ''ks1.t1'' = extractTableInfo ''ks1.t1;''
   \<and> extractTableInfo ''ks1.t1;'' = (''ks1'', ''t1'')"
  using extractTableInfo_semicolon [of "''ks1''" "''t1''"]
  by simp

text \<open>
  C8, at two tokens. \<open>extractTableInfo\<close> splits at the first \<open>.\<close>, cuts the table at
  \<open>;\<close> and at \<open>(\<close>, and returns the keyspace as it stands: upper case stays upper
  case and the double quotes stay. \<open>handleUseQuery\<close> normalises the same tokens.
\<close>

theorem extractTableInfo_keeps_keyspace:
  "extractTableInfo ''KS1.t1(a,b);'' = (''KS1'', ''t1'')
   \<and> extractTableInfo (CHR 0x22 # ''Ks'' @ [CHR 0x22] @ ''.t1;'') = (CHR 0x22 # ''Ks'' @ [CHR 0x22], ''t1'')
   \<and> useKeyspace ''KS1'' = Some ''ks1''
   \<and> useKeyspace (CHR 0x22 # ''Ks'' @ [CHR 0x22]) = Some ''Ks''"
  by (simp add: extractTableInfo_def useKeyspace_def HasPrefix_def HasSuffix_def ToLower_def
      lowerByte_def Let_def)

section \<open>The mirror executor and \<open>USE\<close>: proofs\<close>

lemma astraWrite_fields:
  "astraWrite b p = (ok, p') \<Longrightarrow>
     p' = p\<lparr>astraResults := astraResults p', trace := trace p'\<rparr>"
  by (auto simp: astraWrite_def log_def split: list.splits bool.splits)

lemma execute_loop_fail:
  "i \<le> 5 \<Longrightarrow> astraResults p = False # rs \<Longrightarrow>
     execute_loop i q p =
       execute_loop (i + 1) q
         (p\<lparr>astraResults := rs, trace := trace p @ [EvWrite (Query q) False, EvSleep 500]\<rparr>)"
  by (subst execute_loop.simps) (simp add: astraWrite_def Sleep_def log_def)

lemma execute_loop_ok:
  "i \<le> 5 \<Longrightarrow> astraResults p = [] \<or> astraResults p = True # rs \<Longrightarrow>
     execute_loop i q p =
       p\<lparr>astraResults := tl (astraResults p), trace := trace p @ [EvWrite (Query q) True]\<rparr>"
  by (subst execute_loop.simps) (auto simp add: astraWrite_def log_def)

lemma execute_loop_done: "\<not> i \<le> 5 \<Longrightarrow> execute_loop i q p = p"
  by (subst execute_loop.simps) simp

lemma execute_loop_spec:
  "execute_loop i q p =
     p\<lparr>astraResults := astraResults (execute_loop i q p),
       trace := trace p @ retry_events (6 - i) (Query q) (astraResults p)\<rparr>"
proof (induction i q p rule: execute_loop.induct)
  case (1 i q p)
  show ?case
  proof (cases "i \<le> 5")
    case False
    then show ?thesis by (simp add: execute_loop_done)
  next
    case True
    then obtain n where n: "6 - i = Suc n" "6 - (i + 1) = n"
      by (cases "6 - i") auto
    show ?thesis
    proof (cases "astraResults p")
      case Nil
      with True n show ?thesis by (simp add: execute_loop_ok [of i p "[]"])
    next
      case (Cons b rs)
      show ?thesis
      proof (cases b)
        case True
        with \<open>i \<le> 5\<close> Cons n show ?thesis by (simp add: execute_loop_ok [of i p rs])
      next
        case False
        let ?p1 = "p\<lparr>astraResults := rs, trace := trace p @ [EvWrite (Query q) False, EvSleep 500]\<rparr>"
        have w: "astraWrite (Query q) p = (False, log (EvWrite (Query q) False) (p\<lparr>astraResults := rs\<rparr>))"
          using Cons False by (simp add: astraWrite_def)
        have s: "Sleep 500 (log (EvWrite (Query q) False) (p\<lparr>astraResults := rs\<rparr>)) = ?p1"
          by (simp add: Sleep_def log_def)
        note ih = "1.IH" [OF True w [symmetric] refl, unfolded s]
        have eq: "execute_loop i q p = execute_loop (i + 1) q ?p1"
          using True Cons False by (intro execute_loop_fail) simp_all
        show ?thesis
          unfolding eq using Cons False n by (subst ih) simp
      qed
    qed
  qed
qed

lemma retry_events_bounds:
  "attempts (retry_events n b rs) \<le> n
   \<and> slept (retry_events n b rs) = 500 * failures (retry_events n b rs)
   \<and> failures (retry_events n b rs) \<le> n"
  by (induction n b rs rule: retry_events.induct)
     (simp_all add: attempts_def slept_def failures_def)

lemma execute_events:
  "new_events p (snd (execute q p)) = retry_events 5 (Query q) (astraResults p)"
proof -
  have "trace (execute_loop 1 q p) = trace p @ retry_events 5 (Query q) (astraResults p)"
    by (subst execute_loop_spec) simp
  then show ?thesis by (simp add: new_events_def execute_def)
qed

text \<open>
  C6, as the code has it. \<open>execute\<close> writes to the target at most five times; it
  sleeps 500 ms after every failed write, the fifth included, so for at most 2.5 s.
\<close>

theorem execute_attempts_and_sleep:
  "attempts (new_events p (snd (execute query p))) \<le> 5
   \<and> slept (new_events p (snd (execute query p))) = 500 * failures (new_events p (snd (execute query p)))
   \<and> slept (new_events p (snd (execute query p))) \<le> 2500"
  using retry_events_bounds [of 5 "Query query" "astraResults p"]
  by (simp add: execute_events)

text \<open>
  C6 fails as stated: when the five writes fail, \<open>execute\<close> has slept 2.5 s, not 2 s.
\<close>

theorem execute_sleep_counterexample:
  "attempts (new_events (ex_proxy\<lparr>astraResults := replicate 5 False\<rparr>)
      (snd (execute ex_query (ex_proxy\<lparr>astraResults := replicate 5 False\<rparr>)))) = 5
   \<and> slept (new_events (ex_proxy\<lparr>astraResults := replicate 5 False\<rparr>)
      (snd (execute ex_query (ex_proxy\<lparr>astraResults := replicate 5 False\<rparr>)))) = 2500
   \<and> \<not> slept (new_events (ex_proxy\<lparr>astraResults := replicate 5 False\<rparr>)
      (snd (execute ex_query (ex_proxy\<lparr>astraResults := replicate 5 False\<rparr>)))) \<le> 2000"
  by (simp add: execute_events eval_nat_numeral attempts_def slept_def failures_def)

lemma execute_loop_all_fail:
  "execute_loop 1 q (p\<lparr>astraResults := [False, False, False, False, False]\<rparr>) =
     p\<lparr>astraResults := [],
       trace := trace p @ [EvWrite (Query q) False, EvSleep 500, EvWrite (Query q) False, EvSleep 500,
         EvWrite (Query q) False, EvSleep 500, EvWrite (Query q) False, EvSleep 500,
         EvWrite (Query q) False, EvSleep 500]\<rparr>"
  by (simp add: execute_loop.simps astraWrite_def Sleep_def log_def)

text \<open>
  C5, at the failing input. \<open>execute\<close> returns \<open>nil\<close> whatever the writes did. With
  the five writes failing, one pass of \<open>consumeQueue\<close> over the queued \<open>INSERT\<close> makes
  five attempts, all failed, and then counts a write: \<open>Writes\<close> is 1 and \<open>WriteFails\<close>
  is 0.
\<close>

theorem execute_never_reports_failure:
  "fst (execute query p) = Return None
   \<and> fst (consumeQueue ''ks1'' ''t1'' ex_failing) = Return None
   \<and> attempts (new_events ex_failing (snd (consumeQueue ''ks1'' ''t1'' ex_failing))) = 5
   \<and> failures (new_events ex_failing (snd (consumeQueue ''ks1'' ''t1'' ex_failing))) = 5
   \<and> Writes (Metrics (snd (consumeQueue ''ks1'' ''t1'' ex_failing))) = 1
   \<and> WriteFails (Metrics (snd (consumeQueue ''ks1'' ''t1'' ex_failing))) = 0"
  by (simp add: execute_def consumeQueue_def ex_failing_def ex_proxy_def reset_def ex_query_def
      nget_def nput_def nset_def execute_loop.simps astraWrite_def Sleep_def log_def
      incrementWrites_def incrementWriteFails_def new_events_def attempts_def failures_def Let_def)

lemma execute_result:
  "execute q p =
     (Return None,
      p\<lparr>astraResults := astraResults (snd (execute q p)),
        trace := trace p @ retry_events 5 (Query q) (astraResults p)\<rparr>)"
proof -
  have "execute_loop 1 q p =
     p\<lparr>astraResults := astraResults (execute_loop 1 q p),
       trace := trace p @ retry_events 5 (Query q) (astraResults p)\<rparr>"
    by (subst execute_loop_spec) simp
  then show ?thesis by (simp add: execute_def)
qed

lemma retry_events_first: "\<exists>ok es. retry_events 5 b rs = EvWrite b ok # es"
proof (cases rs)
  case Nil
  then show ?thesis by (auto simp: eval_nat_numeral)
next
  case (Cons r rs')
  then show ?thesis by (cases r) (auto simp: eval_nat_numeral)
qed

text \<open>
  C10. For a \<open>USE\<close> whose keyspace normalises to \<open>ks\<close>: if \<open>ks\<close> is not a key of the
  tables of the migration status, \<open>handleUseQuery\<close> returns the error
  \<open>invalid keyspace\<close> and leaves the proxy as it was (\<open>Keyspace\<close> unchanged, no event,
  so nothing written to the target); only if it is a key, \<open>Keyspace\<close> becomes \<open>ks\<close> and
  the query is executed against the target, its first event being a write of the frame.
\<close>

theorem handleUseQuery_unknown_keyspace:
  assumes "migrationStatus p = Some st" and "useKeyspace keyspace = Some ks"
  shows "(Tables st ks = None \<longrightarrow>
            handleUseQuery query keyspace p = (Return (Some ''invalid keyspace''), p))
       \<and> (Tables st ks \<noteq> None \<longrightarrow>
            handleUseQuery query keyspace p =
              execute \<lparr>Table = None, Type = USE, Query = query\<rparr> (p\<lparr>Keyspace := ks\<rparr>)
            \<and> Keyspace (snd (handleUseQuery query keyspace p)) = ks
            \<and> (\<exists>ok es. new_events p (snd (handleUseQuery query keyspace p)) = EvWrite query ok # es))"
proof -
  let ?q = "\<lparr>Table = None, Type = USE, Query = query\<rparr>"
  have a: "Tables st ks = None \<Longrightarrow>
      handleUseQuery query keyspace p = (Return (Some ''invalid keyspace''), p)"
    using assms by (simp add: handleUseQuery_def)
  have b: "handleUseQuery query keyspace p = execute ?q (p\<lparr>Keyspace := ks\<rparr>)"
    if "Tables st ks \<noteq> None"
    using assms that by (auto simp: handleUseQuery_def)
  have c: "Keyspace (snd (execute ?q (p\<lparr>Keyspace := ks\<rparr>))) = ks"
    by (subst execute_result) simp
  obtain ok es where r: "retry_events 5 query (astraResults p) = EvWrite query ok # es"
    using retry_events_first by blast
  have d: "new_events p (snd (execute ?q (p\<lparr>Keyspace := ks\<rparr>))) = EvWrite query ok # es"
    by (subst execute_result) (simp add: new_events_def r)
  from a b c d show ?thesis by auto
qed

theorem handleUseQuery_unknown_keyspace_witness:
  "handleUseQuery ex_frame ''KS2'' ex_proxy = (Return (Some ''invalid keyspace''), ex_proxy)
   \<and> Keyspace (snd (handleUseQuery ex_frame ''KS1'' ex_proxy)) = ''ks1''"
proof -
  have st: "migrationStatus ex_proxy = Some \<lparr>Tables = [''ks1'' \<mapsto> [''t1'' \<mapsto> ex_table]]\<rparr>"
    by (simp add: ex_proxy_def)
  have k2: "useKeyspace ''KS2'' = Some ''ks2''" and k1: "useKeyspace ''KS1'' = Some ''ks1''"
    by (simp_all add: useKeyspace_def HasPrefix_def HasSuffix_def ToLower_def lowerByte_def)
  have a: "handleUseQuery ex_frame ''KS2'' ex_proxy = (Return (Some ''invalid keyspace''), ex_proxy)"
    using handleUseQuery_unknown_keyspace [OF st k2, of ex_frame] by simp
  have "Tables \<lparr>Tables = [''ks1'' \<mapsto> [''t1'' \<mapsto> ex_table]]\<rparr> ''ks1'' \<noteq> None"
    by simp
  with handleUseQuery_unknown_keyspace [OF st k1, of ex_frame]
  have b: "Keyspace (snd (handleUseQuery ex_frame ''KS1'' ex_proxy)) = ''ks1''"
    by blast
  from a b show ?thesis by blast
qed

section \<open>Pausing a table: proofs\<close>

lemma nget_nput: "m k1 \<noteq> None \<Longrightarrow> nget (nput m k1 k2 v) k1 k2 = Some v"
  by (auto simp: nget_def nput_def)

lemma nset_Some: "nset m k1 k2 v = Some m' \<Longrightarrow> m k1 \<noteq> None \<and> m' = nput m k1 k2 v"
  by (auto simp: nset_def split: option.splits)

lemma nget_Some_outer: "nget m k1 k2 = Some v \<Longrightarrow> m k1 \<noteq> None"
  by (auto simp: nget_def split: option.splits)

lemma stopTable_Return:
  assumes "stopTable keyspace tableName p = (Return e, p1)"
  shows "p1 = log (EvStop keyspace tableName)
               (p\<lparr>tablePaused := nput (tablePaused p) keyspace tableName True,
                  queueLocks := nput (queueLocks p) keyspace tableName True\<rparr>)
         \<and> tablePaused p keyspace \<noteq> None
         \<and> nget (queueLocks p) keyspace tableName = Some False"
  using assms
  by (auto simp: stopTable_def Let_def nset_def split: option.splits bool.splits)

lemma stopTable_free:
  assumes "tablePaused p keyspace \<noteq> None" and "nget (queueLocks p) keyspace tableName = Some False"
  shows "fst (stopTable keyspace tableName p) = Return None"
  using assms by (auto simp: stopTable_def Let_def nset_def split: option.splits bool.splits)

lemma queueQuery_Return:
  assumes "queueQuery q p = (Return e, p')" and "Table q = Some t"
  shows "tablePaused p' = tablePaused p \<and> queueLocks p' = queueLocks p
         \<and> trace p' = trace p @ [EvEnqueue (tblKeyspace t) (tblName t) q]"
  using assms
  by (auto simp: queueQuery_def Let_def log_def split: option.splits if_splits)

lemma queueQuery_any:
  "tablePaused (snd (queueQuery q p)) = tablePaused p
   \<and> queueLocks (snd (queueQuery q p)) = queueLocks p
   \<and> (\<forall>a b. EvStop a b \<notin> set (new_events p (snd (queueQuery q p))))"
  by (auto simp: queueQuery_def Let_def log_def new_events_def split: option.splits if_splits)

lemma queueQuery_room:
  assumes "Table q = Some t"
    and "nget (queues p) (tblKeyspace t) (tblName t) = Some qs" and "length qs < queueSize"
    and "queueSizes p (tblKeyspace t) \<noteq> None"
  shows "fst (queueQuery q p) = Return None"
  using assms by (auto simp: queueQuery_def Let_def log_def nset_def split: option.splits)

lemma handleWriteQuery_Return:
  assumes st: "migrationStatus p = Some st"
    and t: "nget (Tables st) keyspace tableName = Some table"
    and step: "tblStep table \<noteq> LoadingDataComplete"
    and np: "\<not> paused keyspace tableName p"
    and r: "handleWriteQuery ty query keyspace tableName p = (Return e, p')"
  shows "paused keyspace tableName p'
       \<and> nget (queueLocks p) keyspace tableName = Some False
       \<and> nget (queueLocks p') keyspace tableName = Some True
       \<and> new_events p p' =
            [EvStop keyspace tableName,
             EvEnqueue (tblKeyspace table) (tblName table)
               \<lparr>Table = Some table, Type = ty, Query = query\<rparr>]"
proof -
  let ?q = "\<lparr>Table = Some table, Type = ty, Query = query\<rparr>"
  have ts: "tableStatus keyspace tableName p \<noteq> Some LoadingDataComplete"
    using st t step by (simp add: tableStatus_def)
  obtain r1 p1 where s: "stopTable keyspace tableName p = (r1, p1)" by (cases "stopTable keyspace tableName p")
  have "\<exists>e1. r1 = Return e1"
    using r st t np ts s by (cases r1) (simp_all add: handleWriteQuery_def)
  then obtain e1 where r1: "r1 = Return e1" by blast
  have q: "queueQuery ?q p1 = (Return e, p')"
    using r st t np ts s r1 by (simp add: handleWriteQuery_def)
  note a = stopTable_Return [OF s [unfolded r1]]
  note b = queueQuery_Return [OF q, of table, simplified]
  from a have lk: "queueLocks p keyspace \<noteq> None" by (auto dest: nget_Some_outer)
  from a have p1: "paused keyspace tableName p1" "nget (queueLocks p1) keyspace tableName = Some True"
    "trace p1 = trace p @ [EvStop keyspace tableName]"
    using lk by (simp_all add: paused_def log_def nget_nput)
  from b p1 have "paused keyspace tableName p'" "nget (queueLocks p') keyspace tableName = Some True"
    by (simp_all add: paused_def)
  moreover from b p1 have "new_events p p' = [EvStop keyspace tableName,
             EvEnqueue (tblKeyspace table) (tblName table) ?q]"
    by (simp add: new_events_def)
  ultimately show ?thesis using a by simp
qed

lemma handleWriteQuery_total:
  assumes st: "migrationStatus p = Some st"
    and t: "nget (Tables st) keyspace tableName = Some table"
    and step: "tblStep table \<noteq> LoadingDataComplete"
    and np: "\<not> paused keyspace tableName p"
    and tp: "tablePaused p keyspace \<noteq> None"
    and lk: "nget (queueLocks p) keyspace tableName = Some False"
    and qu: "nget (queues p) (tblKeyspace table) (tblName table) = Some qs" "length qs < queueSize"
    and qs: "queueSizes p (tblKeyspace table) \<noteq> None"
  shows "fst (handleWriteQuery ty query keyspace tableName p) = Return None"
proof -
  let ?q = "\<lparr>Table = Some table, Type = ty, Query = query\<rparr>"
  have ts: "tableStatus keyspace tableName p \<noteq> Some LoadingDataComplete"
    using st t step by (simp add: tableStatus_def)
  obtain r1 p1 where s: "stopTable keyspace tableName p = (r1, p1)" by (cases "stopTable keyspace tableName p")
  from stopTable_free [OF tp lk] s have r1: "r1 = Return None" by simp
  note a = stopTable_Return [OF s [unfolded r1]]
  have "fst (queueQuery ?q p1) = Return None"
    using a qu qs by (intro queueQuery_room [of _ table _ qs]) (simp_all add: log_def)
  then show ?thesis using st t np ts s r1 by (simp add: handleWriteQuery_def)
qed

lemma handleInsertQuery_no_pause:
  "tablePaused (snd (handleInsertQuery query keyspace tableName p)) = tablePaused p
   \<and> queueLocks (snd (handleInsertQuery query keyspace tableName p)) = queueLocks p
   \<and> (\<forall>a b. EvStop a b \<notin> set (new_events p (snd (handleInsertQuery query keyspace tableName p))))"
  using queueQuery_any
  by (auto simp: handleInsertQuery_def new_events_def split: option.splits)

text \<open>
  C3. Take a table of the migration status whose step is not \<open>LoadingDataComplete\<close> and
  which is not paused, and one of the handlers of \<open>UPDATE\<close>, \<open>DELETE\<close> and
  \<open>TRUNCATE\<close>. Whenever the handler returns, the table is paused and its latch, free
  before, is held, and the events of the call are the pause followed by the query put on
  the queue, in that order. The handler does return when the latch is free and the queue
  has room. \<open>handleInsertQuery\<close>, in any state and for any table, leaves the paused
  flags and the latches as they are and pauses nothing.
\<close>

theorem pause_before_enqueue:
  assumes "migrationStatus p = Some st"
    and "nget (Tables st) keyspace tableName = Some table"
    and "tblStep table \<noteq> LoadingDataComplete"
    and "\<not> paused keyspace tableName p"
    and "(h, ty) \<in> {(handleUpdateQuery, UPDATE), (handleDeleteQuery, DELETE),
                     (handleTruncateQuery, TRUNCATE)}"
  shows "(\<forall>e p'. h query keyspace tableName p = (Return e, p') \<longrightarrow>
            paused keyspace tableName p'
          \<and> nget (queueLocks p) keyspace tableName = Some False
          \<and> nget (queueLocks p') keyspace tableName = Some True
          \<and> new_events p p' =
               [EvStop keyspace tableName,
                EvEnqueue (tblKeyspace table) (tblName table)
                  \<lparr>Table = Some table, Type = ty, Query = query\<rparr>])
       \<and> (tablePaused p keyspace \<noteq> None
          \<and> nget (queueLocks p) keyspace tableName = Some False
          \<and> (\<exists>qs. nget (queues p) (tblKeyspace table) (tblName table) = Some qs
                   \<and> length qs < queueSize)
          \<and> queueSizes p (tblKeyspace table) \<noteq> None
          \<longrightarrow> fst (h query keyspace tableName p) = Return None)
       \<and> tablePaused (snd (handleInsertQuery query0 keyspace0 tableName0 p0)) = tablePaused p0
       \<and> queueLocks (snd (handleInsertQuery query0 keyspace0 tableName0 p0)) = queueLocks p0
       \<and> (\<forall>a b. EvStop a b
             \<notin> set (new_events p0 (snd (handleInsertQuery query0 keyspace0 tableName0 p0))))"
proof -
  from assms(5) have h: "h = handleWriteQuery ty"
    by (auto simp: handleUpdateQuery_def handleDeleteQuery_def handleTruncateQuery_def)
  note ret = handleWriteQuery_Return [OF assms(1-4), of ty query]
  note tot = handleWriteQuery_total [OF assms(1-4), of _ ty query]
  from ret tot handleInsertQuery_no_pause [of query0 keyspace0 tableName0 p0]
  show ?thesis unfolding h by blast
qed

theorem pause_before_enqueue_witness:
  "fst (handleUpdateQuery ex_frame ''ks1'' ''t1'' ex_proxy) = Return None
   \<and> paused ''ks1'' ''t1'' (snd (handleUpdateQuery ex_frame ''ks1'' ''t1'' ex_proxy))
   \<and> nget (queueLocks (snd (handleUpdateQuery ex_frame ''ks1'' ''t1'' ex_proxy))) ''ks1'' ''t1''
       = Some True
   \<and> new_events ex_proxy (snd (handleUpdateQuery ex_frame ''ks1'' ''t1'' ex_proxy)) =
       [EvStop ''ks1'' ''t1'',
        EvEnqueue ''ks1'' ''t1'' \<lparr>Table = Some ex_table, Type = UPDATE, Query = ex_frame\<rparr>]"
proof -
  let ?st = "\<lparr>Tables = [''ks1'' \<mapsto> [''t1'' \<mapsto> ex_table]]\<rparr>"
  have 1: "migrationStatus ex_proxy = Some ?st" by (simp add: ex_proxy_def)
  have 2: "nget (Tables ?st) ''ks1'' ''t1'' = Some ex_table" by (simp add: nget_def)
  have 3: "tblStep ex_table \<noteq> LoadingDataComplete" by (simp add: ex_table_def)
  have 4: "\<not> paused ''ks1'' ''t1'' ex_proxy" by (simp add: paused_def nget_def ex_proxy_def)
  have 5: "(handleUpdateQuery, UPDATE) \<in> {(handleUpdateQuery, UPDATE), (handleDeleteQuery, DELETE),
                     (handleTruncateQuery, TRUNCATE)}" by simp
  note inst = pause_before_enqueue [OF 1 2 3 4 5, of ex_frame]
  have free: "tablePaused ex_proxy ''ks1'' \<noteq> None
          \<and> nget (queueLocks ex_proxy) ''ks1'' ''t1'' = Some False
          \<and> (\<exists>qs. nget (queues ex_proxy) (tblKeyspace ex_table) (tblName ex_table) = Some qs
                   \<and> length qs < queueSize)
          \<and> queueSizes ex_proxy (tblKeyspace ex_table) \<noteq> None"
    by (simp add: ex_proxy_def ex_table_def nget_def queueSize_def)
  with inst have r: "fst (handleUpdateQuery ex_frame ''ks1'' ''t1'' ex_proxy) = Return None"
    by blast
  then have "handleUpdateQuery ex_frame ''ks1'' ''t1'' ex_proxy
      = (Return None, snd (handleUpdateQuery ex_frame ''ks1'' ''t1'' ex_proxy))"
    by (metis prod.collapse)
  with inst r show ?thesis by (simp add: ex_table_def)
qed

section \<open>\<open>mirrorData\<close>: proofs\<close>

lemma anr_refl: "adds_no_reply p p"
  by (simp add: adds_no_reply_def)

lemma anr_trans: "adds_no_reply p p1 \<Longrightarrow> adds_no_reply p1 p2 \<Longrightarrow> adds_no_reply p p2"
  by (auto simp: adds_no_reply_def)

lemma anr_same_trace: "trace p' = trace p \<Longrightarrow> adds_no_reply p p'"
  by (simp add: adds_no_reply_def)

lemma anr_log: "\<not> is_parse_reply e \<Longrightarrow> trace p' = trace p \<Longrightarrow> adds_no_reply p (log e p')"
  by (simp add: adds_no_reply_def log_def)

lemma retry_events_no_reply: "\<forall>e\<in>set (retry_events n b rs). \<not> is_parse_reply e"
  by (induction n b rs rule: retry_events.induct) simp_all

lemma anr_execute: "adds_no_reply p (snd (execute q p))"
  by (subst execute_result) (simp add: adds_no_reply_def retry_events_no_reply)

lemma anr_stopTable: "adds_no_reply p (snd (stopTable ks tn p))"
  by (auto simp: stopTable_def Let_def adds_no_reply_def log_def split: option.splits bool.splits)

lemma anr_queueQuery: "adds_no_reply p (snd (queueQuery q p))"
  by (auto simp: queueQuery_def Let_def adds_no_reply_def log_def split: option.splits)

lemma anr_handleInsertQuery: "adds_no_reply p (snd (handleInsertQuery query ks tn p))"
  by (auto simp: handleInsertQuery_def anr_refl anr_queueQuery split: option.splits)

lemma anr_handleWriteQuery: "adds_no_reply p (snd (handleWriteQuery ty query ks tn p))"
proof -
  obtain r1 p1 where s: "stopTable ks tn p = (r1, p1)" by (cases "stopTable ks tn p")
  from anr_stopTable [of p ks tn] s have a: "adds_no_reply p p1" by simp
  have b: "adds_no_reply p (snd (queueQuery q p1))" for q
    by (rule anr_trans [OF a anr_queueQuery])
  show ?thesis
    using s a b
    by (auto simp: handleWriteQuery_def anr_refl anr_queueQuery split: option.splits ret.splits)
qed

lemma anr_handleUseQuery: "adds_no_reply p (snd (handleUseQuery query ks p))"
proof -
  have "adds_no_reply p (snd (execute q (p\<lparr>Keyspace := k\<rparr>)))" for q k
    using anr_execute [of "p\<lparr>Keyspace := k\<rparr>" q] by (simp add: adds_no_reply_def)
  then show ?thesis
    by (auto simp: handleUseQuery_def anr_refl split: option.splits)
qed

lemma mirrorData_request:
  assumes "2 \<le> length frame" and "(frame ! 1) AND 1 \<noteq> 1" and "\<not> frame ! 0 > 0x80"
  shows "adds_no_reply p (snd (mirrorData parser frame p))"
proof -
  obtain paths err pq where pr:
    "CassandraParseRequest parser (preparedQueries p) frame = ((paths, err), pq)"
    by (metis prod.collapse)
  define p1 where "p1 = log (EvParseRequest frame) (p\<lparr>preparedQueries := pq\<rparr>)"
  have a: "adds_no_reply p p1"
    unfolding p1_def by (rule anr_log) simp_all
  have b: "adds_no_reply p p2" if "adds_no_reply p1 p2" for p2
    using a that by (rule anr_trans)
  have c: "adds_no_reply p (p1\<lparr>Metrics := m\<rparr>)" for m
    using a by (simp add: adds_no_reply_def)
  note h = b [OF anr_execute] b [OF anr_handleUseQuery] b [OF anr_handleInsertQuery]
    b [OF anr_handleWriteQuery]
  show ?thesis
    using assms pr a c h
    by (simp add: mirrorData_def Let_def p1_def [symmetric] handleUpdateQuery_def
        handleDeleteQuery_def handleTruncateQuery_def split: prod.splits)
qed

lemma mirrorData_compressed:
  assumes "2 \<le> length frame" and "(frame ! 1) AND 1 = 1"
  shows "mirrorData parser frame p =
           (Return (Some ''compression flag set, unable to parse reply beyond header''), p)"
  using assms by (simp add: mirrorData_def)

lemma mirrorData_reply:
  assumes "2 \<le> length frame" and "(frame ! 1) AND 1 \<noteq> 1" and "frame ! 0 > 0x80"
  shows "mirrorData parser frame p =
           (Return None,
            log (EvParseReply frame)
              (p\<lparr>preparedQueries := CassandraParseReply parser (preparedQueries p) frame\<rparr>))"
  using assms by (simp add: mirrorData_def)

lemma anr_new_events: "adds_no_reply p p' \<Longrightarrow> EvParseReply b \<notin> set (new_events p p')"
proof
  assume h: "adds_no_reply p p'" and m: "EvParseReply b \<in> set (new_events p p')"
  from h obtain es where es: "trace p' = trace p @ es" "\<forall>e\<in>set es. \<not> is_parse_reply e"
    by (auto simp: adds_no_reply_def)
  from m es(1) have "EvParseReply b \<in> set es" by (simp add: new_events_def)
  with es(2) have "\<not> is_parse_reply (EvParseReply b)" by blast
  then show False by simp
qed

text \<open>
  C7, as the code has it. A frame handed to \<open>mirrorData\<close> is treated as a reply, that is
  given to the reply parser (and to nothing else: the call returns \<open>nil\<close> with only the
  registry of prepared statements updated), if and only if its compression flag is clear
  and its byte 0 is greater than \<open>0x80\<close>.
\<close>

theorem reply_iff_above_0x80:
  assumes "2 \<le> length frame"
  shows "(EvParseReply frame \<in> set (new_events p (snd (mirrorData parser frame p)))
            \<longleftrightarrow> (frame ! 1) AND 1 \<noteq> 1 \<and> frame ! 0 > 0x80)
       \<and> ((frame ! 1) AND 1 \<noteq> 1 \<and> frame ! 0 > 0x80 \<longrightarrow>
            mirrorData parser frame p =
              (Return None,
               log (EvParseReply frame)
                 (p\<lparr>preparedQueries := CassandraParseReply parser (preparedQueries p) frame\<rparr>)))"
proof (cases "(frame ! 1) AND 1 = 1")
  case True
  with mirrorData_compressed [OF assms True, of parser p] show ?thesis
    by (simp add: new_events_def)
next
  case nc: False
  show ?thesis
  proof (cases "frame ! 0 > 0x80")
    case True
    with nc mirrorData_reply [OF assms nc True, of parser p] show ?thesis
      by (simp add: new_events_def log_def)
  next
    case False
    with nc anr_new_events [OF mirrorData_request [OF assms nc False, of p parser], of frame]
    show ?thesis by simp
  qed
qed

theorem reply_iff_above_0x80_witness:
  "EvParseReply ex_frame84
     \<in> set (new_events ex_proxy (snd (mirrorData (ex_parser [''/result'']) ex_frame84 ex_proxy)))
   \<and> EvParseReply ex_frame
     \<notin> set (new_events ex_proxy (snd (mirrorData (ex_parser [''/query'']) ex_frame ex_proxy)))"
proof -
  have a: "2 \<le> length ex_frame84" "(ex_frame84 ! 1) AND 1 \<noteq> 1" "ex_frame84 ! 0 > 0x80"
    by (simp_all add: ex_frame84_def)
  have b: "2 \<le> length ex_frame" "\<not> ex_frame ! 0 > 0x80"
    by (simp_all add: ex_frame_def)
  from reply_iff_above_0x80 [OF a(1), of ex_proxy "ex_parser [''/result'']"] a(2,3)
    reply_iff_above_0x80 [OF b(1), of ex_proxy "ex_parser [''/query'']"] b(2)
  show ?thesis by blast
qed

text \<open>
  C7 fails as stated: a frame whose byte 0 is \<open>0x80\<close> is not treated as a reply. It is
  given to the request parser, and with the path \<open>/result\<close> it is written to the target.
\<close>

theorem byte_0x80_is_a_request_counterexample:
  "ex_frame80 ! 0 \<ge> 0x80
   \<and> mirrorData (ex_parser [''/result'']) ex_frame80 ex_proxy =
       (Return None,
        ex_proxy\<lparr>trace := [EvParseRequest ex_frame80, EvWrite ex_frame80 True]\<rparr>)"
  by (simp add: mirrorData_def ex_parser_def ex_frame80_def ex_proxy_def reset_def Let_def
      log_def execute_def execute_loop.simps astraWrite_def)

section \<open>\<open>ReadyForRedirect\<close>: proofs\<close>

lemma readySignals_log:
  "readySignals (log e p) = readySignals p + (if e = EvReadyForRedirect then 1 else 0)"
  by (simp add: readySignals_def log_def)

lemma decrementSources_signal:
  "readySignals (decrementSources p) =
     readySignals p + (if migrationComplete p \<and> connectionsToSource p = 1 then 1 else 0)"
  by (simp add: decrementSources_def Let_def readySignals_log) (simp add: readySignals_def)

lemma decrementSources_fields:
  "connectionsToSource (decrementSources p) = connectionsToSource p - 1
   \<and> migrationComplete (decrementSources p) = migrationComplete p
   \<and> sourceHostString (decrementSources p) = sourceHostString p
   \<and> astraHostString (decrementSources p) = astraHostString p"
  by (simp add: decrementSources_def Let_def log_def)

lemma step_signal:
  assumes "step a w = Some w'" and "readySignals (px w') \<noteq> readySignals (px w)"
  shows "(\<exists>c. a = Close c) \<and> migrationComplete (px w) \<and> connectionsToSource (px w) = 1
         \<and> connectionsToSource (px w') = 0
         \<and> readySignals (px w') = readySignals (px w) + 1"
proof (cases a)
  case (Accept c)
  with assms show ?thesis by auto
next
  case (DialOk c)
  with assms show ?thesis
    by (auto simp: dialed_def incrementSources_def readySignals_def split: option.splits if_splits)
next
  case (DialFail c)
  with assms show ?thesis by (auto split: option.splits)
next
  case (Close c)
  with assms obtain h where h: "map_of (forwarding w) c = Some h"
    and w': "px w' = forwardReturns h (px w)"
    by (auto split: option.splits)
  from assms(2) w' have src: "h = sourceHostString (px w)"
    by (auto simp: forwardReturns_def split: if_splits)
  with w' have eq: "px w' = decrementSources (px w)" by (simp add: forwardReturns_def)
  from assms(2) have "migrationComplete (px w) \<and> connectionsToSource (px w) = 1"
    unfolding eq decrementSources_signal by (auto split: if_splits)
  then show ?thesis
    using Close unfolding eq by (simp add: decrementSources_signal decrementSources_fields)
next
  case Complete
  with assms show ?thesis by (auto simp: readySignals_def)
qed

lemma filter_mem_pos: "x \<in> set xs \<Longrightarrow> P x \<Longrightarrow> 0 < length (filter P xs)"
  by (induction xs) auto

lemma filter_remove1_length:
  "x \<in> set xs \<Longrightarrow>
     length (filter P (remove1 x xs)) = length (filter P xs) - (if P x then 1 else 0)"
proof (induction xs)
  case Nil
  then show ?case by simp
next
  case (Cons a xs)
  show ?case
  proof (cases "x = a")
    case True
    then show ?thesis by simp
  next
    case False
    with Cons.prems have m: "x \<in> set xs" by simp
    from filter_mem_pos [OF m, of P] Cons.IH [OF m] False show ?thesis by auto
  qed
qed

lemma inv_connect:
  assumes "drain_inv w" and "step (Accept c) w = Some w1" and "step (DialOk c) w1 = Some w2"
  shows "drain_inv w2"
proof -
  from assms(1) have d: "dialing w = []" by (simp add: drain_inv_def)
  from assms(2) d have w1: "w1 = w\<lparr>dialing := [(c, selectHost (px w))]\<rparr>" by auto
  from assms(3) have w2:
    "w2 = w\<lparr>px := dialed (selectHost (px w)) (px w), dialing := [],
           forwarding := forwarding w @ [(c, selectHost (px w))]\<rparr>"
    unfolding w1 by simp
  show ?thesis
    using assms(1) unfolding w2
    by (auto simp: drain_inv_def open_to_source_def dialed_def selectHost_def
        incrementSources_def readySignals_def)
qed

lemma inv_connect_fail:
  assumes "drain_inv w" and "step (Accept c) w = Some w1" and "step (DialFail c) w1 = Some w2"
  shows "drain_inv w2"
proof -
  from assms(1) have d: "dialing w = []" by (simp add: drain_inv_def)
  from assms(2) d have w1: "w1 = w\<lparr>dialing := [(c, selectHost (px w))]\<rparr>" by auto
  from assms(3) have w2: "w2 = w\<lparr>dialing := []\<rparr>"
    unfolding w1 using d by simp
  show ?thesis
    using assms(1) unfolding w2 by (auto simp: drain_inv_def open_to_source_def)
qed

lemma inv_complete:
  assumes "drain_inv w" and "step Complete w = Some w1"
  shows "drain_inv w1"
  using assms by (auto simp: drain_inv_def open_to_source_def readySignals_def)

lemma inv_close:
  assumes "drain_inv w" and "step (Close c) w = Some w1"
  shows "drain_inv w1"
proof -
  from assms(2) obtain h where h: "map_of (forwarding w) c = Some h"
    and w1: "w1 = w\<lparr>px := forwardReturns h (px w), forwarding := remove1 (c, h) (forwarding w)\<rparr>"
    by (auto split: option.splits)
  from h have mem: "(c, h) \<in> set (forwarding w)" by (rule map_of_SomeD)
  let ?P = "\<lambda>(c, h). h = sourceHostString (px w)"
  note len = filter_remove1_length [OF mem, of ?P]
  show ?thesis
  proof (cases "h = sourceHostString (px w)")
    case False
    then have "forwardReturns h (px w) = px w" by (simp add: forwardReturns_def)
    with assms(1) len False show ?thesis
      unfolding w1 by (auto simp: drain_inv_def open_to_source_def)
  next
    case True
    then have eq: "forwardReturns h (px w) = decrementSources (px w)"
      by (simp add: forwardReturns_def)
    from filter_mem_pos [OF mem, of ?P] True
    have pos: "0 < open_to_source w" by (simp add: open_to_source_def)
    have open1: "open_to_source w1 = open_to_source w - 1"
      unfolding w1 eq using len True
      by (simp add: open_to_source_def decrementSources_fields)
    from assms(1) pos have cnt: "connectionsToSource (px w) = int (open_to_source w)"
      and sig: "readySignals (px w) = 0" and d: "dialing w = []"
      and ne: "sourceHostString (px w) \<noteq> astraHostString (px w)"
      by (auto simp: drain_inv_def)
    have px1: "px w1 = decrementSources (px w)" unfolding w1 eq by simp
    have d1: "dialing w1 = []" unfolding w1 using d by simp
    show ?thesis
      unfolding drain_inv_def px1 decrementSources_signal
      using cnt sig ne pos open1 d1
      by (auto simp: decrementSources_fields)
  qed
qed

lemma inv_init: "source \<noteq> astra \<Longrightarrow> drain_inv (system_init source astra complete)"
  by (simp add: drain_inv_def system_init_def reset_def open_to_source_def readySignals_def)

lemma inv_run:
  "undivided as \<Longrightarrow> drain_inv w \<Longrightarrow> run as w = Some v \<Longrightarrow> drain_inv v"
proof (induction as arbitrary: w rule: undivided.induct)
  case 1
  then show ?case by simp
next
  case (2 c c' as)
  from "2.prems"(3) obtain w1 w2 where s: "step (Accept c) w = Some w1" "step (DialOk c') w1 = Some w2"
    "run as w2 = Some v"
    by (auto split: option.splits)
  from "2.prems"(1) have cc: "c = c'" and u: "undivided as" by simp_all
  from inv_connect [OF "2.prems"(2) s(1) s(2) [folded cc]] have "drain_inv w2" .
  from "2.IH" [OF u this s(3)] show ?case .
next
  case (3 c c' as)
  from "3.prems"(3) obtain w1 w2 where s: "step (Accept c) w = Some w1" "step (DialFail c') w1 = Some w2"
    "run as w2 = Some v"
    by (auto split: option.splits)
  from "3.prems"(1) have cc: "c = c'" and u: "undivided as" by simp_all
  from inv_connect_fail [OF "3.prems"(2) s(1) s(2) [folded cc]] have "drain_inv w2" .
  from "3.IH" [OF u this s(3)] show ?case .
next
  case (7 c as)
  from "7.prems"(3) obtain w1 where s: "step (Close c) w = Some w1" "run as w1 = Some v"
    by (auto split: option.splits)
  from "7.prems"(1) have u: "undivided as" by simp
  from "7.IH" [OF u inv_close [OF "7.prems"(2) s(1)] s(2)] show ?case .
next
  case (8 as)
  from "8.prems"(3) obtain w1 where s: "step Complete w = Some w1" "run as w1 = Some v"
    by (auto split: option.splits)
  from "8.prems"(1) have u: "undivided as" by simp
  from "8.IH" [OF u inv_complete [OF "8.prems"(2) s(1)] s(2)] show ?case .
qed simp_all

text \<open>
  C4, as the code has it. A step of an execution sends \<open>ReadyForRedirect\<close> only if it
  is the end of a forwarder to the origin, the migration is complete and the counter goes
  from 1 to 0, and it sends it once. In the executions from the initial state in which
  the two hosts differ and no handler is divided (nothing comes between its choice of the
  host and the end of its dial), \<open>ReadyForRedirect\<close> is sent at most once.
\<close>

theorem ready_for_redirect_once:
  "(step a w = Some w' \<and> readySignals (px w') \<noteq> readySignals (px w) \<longrightarrow>
      (\<exists>c. a = Close c) \<and> migrationComplete (px w) \<and> connectionsToSource (px w) = 1
      \<and> connectionsToSource (px w') = 0
      \<and> readySignals (px w') = readySignals (px w) + 1)
   \<and> (source \<noteq> astra \<and> undivided as \<and> run as (system_init source astra complete) = Some v
      \<longrightarrow> readySignals (px v) \<le> 1)"
proof -
  have "readySignals (px v) \<le> 1"
    if "source \<noteq> astra" "undivided as" "run as (system_init source astra complete) = Some v"
    using inv_run [OF that(2) inv_init [OF that(1)] that(3)] by (auto simp: drain_inv_def)
  with step_signal [of a w w'] show ?thesis by blast
qed

lemma ex_drain_run:
  "map_option (\<lambda>w. readySignals (px w))
     (run ex_drain (system_init ''10.0.0.1:9042'' ''10.0.0.2:9042'' False)) = Some 1"
  by (simp add: ex_drain_def system_init_def reset_def selectHost_def dialed_def
      forwardReturns_def incrementSources_def decrementSources_def log_def readySignals_def Let_def)

text \<open>
  C4 fails as stated. Connection 2 chooses the origin, the migration completes and
  connection 1 closes (the counter goes from 1 to 0: first send); then the dial of
  connection 2 ends and it is counted, and when it closes the counter goes from 1 to 0
  again: second send.
\<close>

theorem ready_for_redirect_twice_counterexample:
  "map_option (\<lambda>w. readySignals (px w))
     (run ex_race (system_init ''10.0.0.1:9042'' ''10.0.0.2:9042'' False)) = Some 2"
  by (simp add: ex_race_def system_init_def reset_def selectHost_def dialed_def
      forwardReturns_def incrementSources_def decrementSources_def log_def readySignals_def Let_def)

theorem ready_for_redirect_once_witness:
  "undivided ex_drain
   \<and> (\<exists>v. run ex_drain (system_init ''10.0.0.1:9042'' ''10.0.0.2:9042'' False) = Some v
          \<and> readySignals (px v) \<le> 1)
   \<and> (\<exists>w'. step (Close 1) ex_draining = Some w'
           \<and> readySignals (px w') = readySignals (px ex_draining) + 1
           \<and> migrationComplete (px ex_draining)
           \<and> connectionsToSource (px ex_draining) = 1
           \<and> connectionsToSource (px w') = 0)"
proof -
  let ?init = "system_init ''10.0.0.1:9042'' ''10.0.0.2:9042'' False"
  have u: "undivided ex_drain" by (simp add: ex_drain_def)
  from ex_drain_run obtain v where v: "run ex_drain ?init = Some v" by auto
  have ne: "''10.0.0.1:9042'' \<noteq> ''10.0.0.2:9042''" by simp
  from ready_for_redirect_once [of _ _ _ "''10.0.0.1:9042''" "''10.0.0.2:9042''" ex_drain False v] ne u v
  have a: "readySignals (px v) \<le> 1" by blast
  obtain w' where s: "step (Close 1) ex_draining = Some w'"
    by (simp add: ex_draining_def)
  have "readySignals (px w') \<noteq> readySignals (px ex_draining)"
    using s
    by (auto simp: ex_draining_def reset_def forwardReturns_def decrementSources_def log_def
        readySignals_def Let_def)
  with ready_for_redirect_once [of "Close 1" ex_draining w'] s
  have b: "readySignals (px w') = readySignals (px ex_draining) + 1
           \<and> migrationComplete (px ex_draining)
           \<and> connectionsToSource (px ex_draining) = 1
           \<and> connectionsToSource (px w') = 0" by blast
  from u v a s b show ?thesis by blast
qed


end
